theory Spec2Isabelle
  imports Complex_Main "HOL-Library.Word" "HOL-Library.Finite_Map"
begin

section \<open>Consistent hashing with bounded loads: the data model\<close>

text \<open>
  The embedding follows the Go package \<open>consistent\<close> (the file with \<open>AverageLoad\<close>,
  \<open>distributeWithLoad\<close>, \<open>distributePartitions\<close>, \<open>add\<close>, \<open>Add\<close>, \<open>delSlice\<close>,
  \<open>Remove\<close>, \<open>FindPartitionID\<close>, \<open>GetPartitionOwner\<close>, \<open>LocateKey\<close> and
  \<open>GetPartitionBackups\<close>).

  \<^item> \<open>Member\<close> is an interface whose only method is \<open>Name()\<close>; a member is represented
    by the name it returns.
  \<^item> \<open>uint64\<close> hashes are 64-bit words; a byte slice is a \<open>string\<close> (a list of bytes).
  \<^item> \<open>LoadFactor\<close> is a \<open>float64\<close>: it is represented by the real number it denotes (no
    NaN, no infinity). The product in \<open>AverageLoad\<close> is rounded to \<open>float64\<close>, to the
    nearest value and to the even one of two nearest, as the hardware does
    (\<open>roundFloat64\<close>). A \<open>float64\<close> holds every integer up to \<open>2^53\<close>: the conversion
    \<open>float64(q)\<close> of a count and the load counters, which start at 0 and grow by 1, are
    exact below that bound and are taken as the numbers they count; a product of
    magnitude \<open>2^53\<close> or more (a cap of more than \<open>9 * 10^15\<close> partitions for one
    member) is likewise left unrounded.
  \<^item> A panic is a value of type \<open>panic\<close>; a function that can panic returns
    \<open>panic + 'a\<close>. The two mutators return the panic (if any) together with the
    object as the panic leaves it, since they mutate the receiver before they can fail.
  \<^item> A Go map is a finite map (\<open>fmap\<close>); a key that is absent reads as \<open>None\<close>.
  \<^item> The mutex is not modelled: every operation is one atomic step.
\<close>

type_synonym member = string
type_synonym uint64 = "64 word"

datatype panic =
  HasherNil | DivideByZero | NilDereference | IndexOutOfRange | NotEnoughRoom

datatype err = ErrInsufficientMemberCount | ErrMemberNotFound

record Config =
  Hasher :: "(string \<Rightarrow> uint64) option"
  PartitionCount :: int
  ReplicationFactor :: int
  LoadFactor :: real

record Consistent =
  config :: Config
  hasher :: "string \<Rightarrow> uint64"
  sortedSet :: "uint64 list"
  partitionCount :: nat
  loads :: "(string, nat) fmap"
  members :: "(string, member) fmap"
  partitions :: "(int, member) fmap"
  ring :: "(uint64, member) fmap"

type_synonym table = "(int, member) fmap \<times> (string, nat) fmap"

section \<open>Conversions and library functions used by the package\<close>

text \<open>\<open>uint64(config.PartitionCount)\<close> on a 64-bit \<open>int\<close>: two's complement.\<close>

definition uint64_of_int :: "int \<Rightarrow> nat" where
  "uint64_of_int i = unat (word_of_int i :: uint64)"

text \<open>\<open>int(partID)\<close> on a \<open>uint64\<close>.\<close>

definition int_of_uint64 :: "nat \<Rightarrow> int" where
  "int_of_uint64 k = sint (word_of_nat k :: uint64)"

text \<open>\<open>fmt.Sprintf("%d", i)\<close> for \<open>i \<ge> 0\<close>.\<close>

fun decimal :: "nat \<Rightarrow> string" where
  "decimal n =
     (if n < 10 then [''0123456789'' ! n]
      else decimal (n div 10) @ [''0123456789'' ! (n mod 10)])"

declare decimal.simps [simp del]

text \<open>\<open>binary.LittleEndian.PutUint64\<close>: the eight bytes of the value, lowest first.\<close>

definition putUint64 :: "uint64 \<Rightarrow> string" where
  "putUint64 v =
     map (\<lambda>w. char_of (uint w))
       [v, drop_bit 8 v, drop_bit 16 v, drop_bit 24 v,
        drop_bit 32 v, drop_bit 40 v, drop_bit 48 v, drop_bit 56 v]"

text \<open>
  \<open>sort.Search(n, f)\<close>: the binary search of the Go library on the indices \<open>[i, j)\<close>,
  started with \<open>i = 0\<close> and \<open>j = n\<close>.
\<close>

function search :: "nat \<Rightarrow> nat \<Rightarrow> (nat \<Rightarrow> bool) \<Rightarrow> nat" where
  "search i j f =
     (if i < j then
        (let h = (i + j) div 2 in
         if \<not> f h then search (h + 1) j f else search i h f)
      else i)"
  by pat_completeness auto
termination
  by (relation "measure (\<lambda>(i, j, f). j - i)") auto

declare search.simps [simp del]

subsection \<open>Rounding to float64\<close>

text \<open>
  The exponent of a real number other than 0: the \<open>e\<close> with
  \<open>2^e \<le> |x| < 2^(e+1)\<close>, from the length in bits of the integer part (or of the
  integer part of the reciprocal).
\<close>

function ilog2 :: "int \<Rightarrow> nat" where
  "ilog2 n = (if n \<le> 1 then 0 else ilog2 (n div 2) + 1)"
  by pat_completeness auto
termination
  by (relation "measure nat") auto

declare ilog2.simps [simp del]

definition binade :: "real \<Rightarrow> int" where
  "binade x =
     (if \<bar>x\<bar> \<ge> 1 then int (ilog2 \<lfloor>\<bar>x\<bar>\<rfloor>)
      else - int (ilog2 (\<lceil>1 / \<bar>x\<bar>\<rceil> - 1)) - 1)"

text \<open>The nearest integer, the even one of two nearest.\<close>

definition roundHalfEven :: "real \<Rightarrow> int" where
  "roundHalfEven r =
     (let n = \<lfloor>r\<rfloor>; d = r - of_int n
      in if d < 1 / 2 then n
         else if d > 1 / 2 then n + 1
         else if even n then n else n + 1)"

text \<open>
  The \<open>float64\<close> nearest to a real number: 53 significant bits, the unit in the last
  place being \<open>2^p\<close> with \<open>p = max e (-1022) - 52\<close> (the exponent does not go below
  \<open>-1022\<close>: subnormal numbers). Numbers with a unit in the last place above 1, that is
  of magnitude \<open>2^53\<close> or more, are left as they are.
\<close>

definition roundFloat64 :: "real \<Rightarrow> real" where
  "roundFloat64 x =
     (if x = 0 then 0
      else
        (let p = max (binade x) (- 1022) - 52
         in if p \<le> 0
            then of_int (roundHalfEven (x * 2 ^ nat (- p))) / 2 ^ nat (- p)
            else x))"

section \<open>The operations\<close>

text \<open>
  \<open>AverageLoad\<close>: the quotient \<open>partitionCount / uint64(len(members))\<close> is a \<open>uint64\<close>
  division (it panics on a zero divisor) and only its result is converted to
  \<open>float64\<close>; the product with the load factor is a \<open>float64\<close> product, rounded.
  \<open>math.Ceil\<close> yields an integral value: the result is given as an \<open>int\<close>.
\<close>

definition AverageLoad :: "Consistent \<Rightarrow> panic + int" where
  "AverageLoad c =
     (if fcard (fmdom (members c)) = 0 then Inl DivideByZero
      else Inr \<lceil>roundFloat64 (real (partitionCount c div fcard (fmdom (members c)))
                            * LoadFactor (config c))\<rceil>)"

text \<open>
  The loop of \<open>distributeWithLoad\<close>. \<open>count\<close> is the value of the counter before the
  \<open>count++\<close> of the iteration; \<open>loads[name]\<close> of a missing key reads 0.
\<close>

function walk :: "Consistent \<Rightarrow> int \<Rightarrow> int \<Rightarrow> nat \<Rightarrow> nat \<Rightarrow> table \<Rightarrow> panic + table" where
  "walk c partID avgLoad count idx (parts, lds) =
     (if count + 1 \<ge> length (sortedSet c) then Inl NotEnoughRoom
      else if idx \<ge> length (sortedSet c) then Inl IndexOutOfRange
      else
        (case fmlookup (ring c) (sortedSet c ! idx) of
           None \<Rightarrow> Inl NilDereference
         | Some member \<Rightarrow>
             (let load = (case fmlookup lds member of None \<Rightarrow> 0 | Some l \<Rightarrow> l) in
              if int load + 1 \<le> avgLoad
              then Inr (fmupd partID member parts, fmupd member (load + 1) lds)
              else walk c partID avgLoad (count + 1)
                     (if idx + 1 \<ge> length (sortedSet c) then 0 else idx + 1) (parts, lds))))"
  by pat_completeness auto
termination
  by (relation "measure (\<lambda>(c, partID, avgLoad, count, idx, t). length (sortedSet c) - count)") auto

declare walk.simps [simp del]

definition distributeWithLoad :: "Consistent \<Rightarrow> int \<Rightarrow> nat \<Rightarrow> table \<Rightarrow> panic + table" where
  "distributeWithLoad c partID idx t =
     (case AverageLoad c of
        Inl e \<Rightarrow> Inl e
      | Inr avgLoad \<Rightarrow> walk c partID avgLoad 0 idx t)"

text \<open>
  The body of the loop of \<open>distributePartitions\<close> for the partition ids of a list; the
  function runs it on \<open>[0..<partitionCount]\<close> and installs the two maps at the end.
\<close>

fun distributeLoop :: "Consistent \<Rightarrow> nat list \<Rightarrow> table \<Rightarrow> panic + table" where
  "distributeLoop c [] t = Inr t"
| "distributeLoop c (partID # rest) t =
     (let key = hasher c (putUint64 (word_of_nat partID));
          n = length (sortedSet c);
          found = search 0 n (\<lambda>i. sortedSet c ! i \<ge> key);
          idx = (if found \<ge> n then 0 else found)
      in case distributeWithLoad c (int_of_uint64 partID) idx t of
           Inl e \<Rightarrow> Inl e
         | Inr t' \<Rightarrow> distributeLoop c rest t')"

definition distributePartitions :: "Consistent \<Rightarrow> panic + Consistent" where
  "distributePartitions c =
     (case distributeLoop c [0..<partitionCount c] (fmempty, fmempty) of
        Inl e \<Rightarrow> Inl e
      | Inr (parts, lds) \<Rightarrow> Inr (c\<lparr>loads := lds, partitions := parts\<rparr>))"

definition replicaKey :: "string \<Rightarrow> nat \<Rightarrow> string" where
  "replicaKey name i = name @ decimal i"

text \<open>One iteration of the loop of \<open>add\<close>, for the replica index \<open>i\<close>.\<close>

definition addReplica :: "member \<Rightarrow> nat \<Rightarrow> Consistent \<Rightarrow> Consistent" where
  "addReplica member i c =
     (let h = hasher c (replicaKey member i)
      in c\<lparr>sortedSet := sortedSet c @ [h], ring := fmupd h member (ring c)\<rparr>)"

definition add :: "Consistent \<Rightarrow> member \<Rightarrow> Consistent" where
  "add c member =
     (let c1 = fold (addReplica member) [0..<nat (ReplicationFactor (config c))] c
      in c1\<lparr>sortedSet := sort (sortedSet c1), members := fmupd member member (members c1)\<rparr>)"

definition Add :: "Consistent \<Rightarrow> member \<Rightarrow> panic option \<times> Consistent" where
  "Add c member =
     (if fmlookup (members c) member \<noteq> None then (None, c)
      else
        (let c1 = add c member in
         case distributePartitions c1 of
           Inl e \<Rightarrow> (Some e, c1)
         | Inr c2 \<Rightarrow> (None, c2)))"

text \<open>
  \<open>delSlice\<close>: the index moves on by one also after an element has been cut out, so
  the element that follows a deleted one is not examined.
\<close>

function delSliceFrom :: "nat \<Rightarrow> uint64 \<Rightarrow> uint64 list \<Rightarrow> uint64 list" where
  "delSliceFrom i val xs =
     (if i < length xs then
        (if xs ! i = val then delSliceFrom (i + 1) val (take i xs @ drop (i + 1) xs)
         else delSliceFrom (i + 1) val xs)
      else xs)"
  by pat_completeness auto
termination
  by (relation "measure (\<lambda>(i, val, xs). length xs - i)") auto

declare delSliceFrom.simps [simp del]

definition delSlice :: "Consistent \<Rightarrow> uint64 \<Rightarrow> Consistent" where
  "delSlice c val = c\<lparr>sortedSet := delSliceFrom 0 val (sortedSet c)\<rparr>"

text \<open>One iteration of the loop of \<open>Remove\<close>, for the replica index \<open>i\<close>.\<close>

definition removeReplica :: "string \<Rightarrow> nat \<Rightarrow> Consistent \<Rightarrow> Consistent" where
  "removeReplica name i c =
     (let h = hasher c (replicaKey name i)
      in delSlice (c\<lparr>ring := fmdrop h (ring c)\<rparr>) h)"

definition Remove :: "Consistent \<Rightarrow> string \<Rightarrow> panic option \<times> Consistent" where
  "Remove c name =
     (if fmlookup (members c) name = None then (None, c)
      else
        (let c1 = fold (removeReplica name) [0..<nat (ReplicationFactor (config c))] c;
             c2 = c1\<lparr>members := fmdrop name (members c1)\<rparr>
         in if fcard (fmdom (members c2)) = 0 then (None, c2\<lparr>partitions := fmempty\<rparr>)
            else
              (case distributePartitions c2 of
                 Inl e \<Rightarrow> (Some e, c2)
               | Inr c3 \<Rightarrow> (None, c3))))"

text \<open>
  \<open>New\<close>: the slice of initial members is \<open>None\<close> for Go's \<open>nil\<close>; a panic of the
  constructor leaves no object behind.
\<close>

definition New :: "member list option \<Rightarrow> Config \<Rightarrow> panic + Consistent" where
  "New ms cfg =
     (case Hasher cfg of
        None \<Rightarrow> Inl HasherNil
      | Some h \<Rightarrow>
          (let c0 = \<lparr>config = cfg, hasher = h, sortedSet = [],
                     partitionCount = uint64_of_int (PartitionCount cfg),
                     loads = fmempty, members = fmempty,
                     partitions = fmempty, ring = fmempty\<rparr>;
               c1 = fold (\<lambda>member c. add c member) (case ms of None \<Rightarrow> [] | Some l \<Rightarrow> l) c0
           in case ms of None \<Rightarrow> Inr c1 | Some l \<Rightarrow> distributePartitions c1))"

definition FindPartitionID :: "Consistent \<Rightarrow> string \<Rightarrow> panic + int" where
  "FindPartitionID c key =
     (if partitionCount c = 0 then Inl DivideByZero
      else Inr (int_of_uint64 (unat (hasher c key mod word_of_nat (partitionCount c)))))"

definition GetPartitionOwner :: "Consistent \<Rightarrow> int \<Rightarrow> member option" where
  "GetPartitionOwner c partID = fmlookup (partitions c) partID"

definition LocateKey :: "Consistent \<Rightarrow> string \<Rightarrow> panic + member option" where
  "LocateKey c key =
     (case FindPartitionID c key of
        Inl e \<Rightarrow> Inl e
      | Inr partID \<Rightarrow> Inr (GetPartitionOwner c partID))"

text \<open>
  \<open>GetPartitionBackups\<close>. Go visits the entries of \<open>c.members\<close> in an order the
  language leaves open: the order is the argument \<open>entries\<close>, a list of the
  (name, member) pairs of the registry. \<open>owner\<close> is the interface value returned by
  \<open>GetPartitionOwner\<close>; calling \<open>Name()\<close> on the nil interface panics. The function
  returns a slice and an error value; a panic is not a returned error.
\<close>

type_synonym keyTable = "uint64 \<times> uint64 list \<times> (uint64, member) fmap"

fun collectKeys :: "Consistent \<Rightarrow> member option \<Rightarrow> (string \<times> member) list \<Rightarrow> keyTable
    \<Rightarrow> panic + keyTable" where
  "collectKeys c owner [] acc = Inr acc"
| "collectKeys c owner ((name, member) # rest) (ownerKey, keys, kmems) =
     (let key = hasher c name in
      case owner of
        None \<Rightarrow> Inl NilDereference
      | Some ownerName \<Rightarrow>
          collectKeys c owner rest
            (if name = ownerName then key else ownerKey, keys @ [key], fmupd key member kmems))"

function findOwner :: "uint64 list \<Rightarrow> uint64 \<Rightarrow> nat \<Rightarrow> nat" where
  "findOwner keys ownerKey idx =
     (if idx < length keys then
        (if keys ! idx = ownerKey then idx else findOwner keys ownerKey (idx + 1))
      else idx)"
  by pat_completeness auto
termination
  by (relation "measure (\<lambda>(keys, ownerKey, idx). length keys - idx)") auto

declare findOwner.simps [simp del]

function backupsLoop :: "uint64 list \<Rightarrow> (uint64, member) fmap \<Rightarrow> int \<Rightarrow> nat \<Rightarrow> member list
    \<Rightarrow> panic + (member list \<times> err option)" where
  "backupsLoop keys kmems backupCount idx res =
     (if int (length res) < backupCount then
        (let idx' = (if idx + 1 \<ge> length keys then 0 else idx + 1) in
         if idx' \<ge> length keys then Inl IndexOutOfRange
         else
           (case fmlookup kmems (keys ! idx') of
              None \<Rightarrow> Inl NilDereference
            | Some member \<Rightarrow> backupsLoop keys kmems backupCount idx' (res @ [member])))
      else Inr (res, None))"
  by pat_completeness auto
termination
  by (relation "measure (\<lambda>(keys, kmems, backupCount, idx, res). nat (backupCount - int (length res)))")
     auto

declare backupsLoop.simps [simp del]

definition GetPartitionBackups :: "Consistent \<Rightarrow> (string \<times> member) list \<Rightarrow> int \<Rightarrow> int
    \<Rightarrow> panic + (member list \<times> err option)" where
  "GetPartitionBackups c entries partID backupCount =
     (if backupCount > int (fcard (fmdom (members c))) - 1
      then Inr ([], Some ErrInsufficientMemberCount)
      else
        (case collectKeys c (GetPartitionOwner c partID) entries (0, [], fmempty) of
           Inl e \<Rightarrow> Inl e
         | Inr (ownerKey, keys, kmems) \<Rightarrow>
             (let sorted = sort keys
              in backupsLoop sorted kmems backupCount (findOwner sorted ownerKey 0) [])))"

section \<open>Sequences of operations\<close>

text \<open>
  An instance is what \<open>New\<close> returns, changed by calls of \<open>Add\<close> and \<open>Remove\<close>. A
  sequence of calls is run until the first panic; \<open>runCalls\<close> gives the instance that
  a constructor call followed by a list of calls leaves, when none of them panics.
\<close>

datatype operation = AddMember member | RemoveMember string

fun perform :: "Consistent \<Rightarrow> operation \<Rightarrow> panic option \<times> Consistent" where
  "perform c (AddMember member) = Add c member"
| "perform c (RemoveMember name) = Remove c name"

fun performAll :: "Consistent \<Rightarrow> operation list \<Rightarrow> panic + Consistent" where
  "performAll c [] = Inr c"
| "performAll c (x # xs) =
     (case perform c x of
        (Some e, c') \<Rightarrow> Inl e
      | (None, c') \<Rightarrow> performAll c' xs)"

definition runCalls :: "member list option \<Rightarrow> Config \<Rightarrow> operation list \<Rightarrow> panic + Consistent" where
  "runCalls ms cfg ops =
     (case New ms cfg of
        Inl e \<Rightarrow> Inl e
      | Inr c \<Rightarrow> performAll c ops)"

section \<open>Quantities the properties speak about\<close>

text \<open>The load recorded for a member: a missing entry of the load map reads 0.\<close>

definition loadOf :: "(string, nat) fmap \<Rightarrow> string \<Rightarrow> nat" where
  "loadOf lds name = (case fmlookup lds name of None \<Rightarrow> 0 | Some l \<Rightarrow> l)"

text \<open>The partition ids that a partition table maps to a member.\<close>

definition owned :: "(int, member) fmap \<Rightarrow> member \<Rightarrow> int set" where
  "owned parts m = {k. fmlookup parts k = Some m}"

text \<open>The ring points of a member: the hashes of its replica keys.\<close>

definition replicaHashes :: "Consistent \<Rightarrow> string \<Rightarrow> uint64 list" where
  "replicaHashes c name =
     map (\<lambda>i. hasher c (replicaKey name i)) [0..<nat (ReplicationFactor (config c))]"

text \<open>
  The cap as the specification words it: \<open>ceil((P / memberCount) * F)\<close>, with the
  quotient of the two counts taken in the reals.
\<close>

definition averageLoadCap :: "Consistent \<Rightarrow> int" where
  "averageLoadCap c =
     \<lceil>(real (partitionCount c) / real (fcard (fmdom (members c)))) * LoadFactor (config c)\<rceil>"

text \<open>
  What a distribution pass maintains, for the partition ids \<open>S\<close> handled so far: the
  partition table has exactly these ids; the load recorded for a member is the number
  of ids the table maps to it; a recorded load is positive and at most the cap
  \<open>avg\<close>; every owner is the value of a ring point.
\<close>

definition tableInv :: "(uint64, member) fmap \<Rightarrow> int \<Rightarrow> int set \<Rightarrow> table \<Rightarrow> bool" where
  "tableInv rng avg S t =
     (fmdom' (fst t) = S
      \<and> (\<forall>m. loadOf (snd t) m = card (owned (fst t) m))
      \<and> (\<forall>m l. fmlookup (snd t) m = Some l \<longrightarrow> 0 < l \<and> int l \<le> avg)
      \<and> (\<forall>k m. fmlookup (fst t) k = Some m \<longrightarrow> (\<exists>h. fmlookup rng h = Some m)))"

text \<open>
  What every instance satisfies. The registry and the ring agree: a ring point maps to
  a registered member and is one of the replica hashes of that member, and a
  registered member is stored under its own name. The installed partition table and
  load map are those of a distribution pass with the present ring and cap (when the
  member set is empty \<open>AverageLoad\<close> has no value and nothing is said).
\<close>

definition registryInv :: "Consistent \<Rightarrow> bool" where
  "registryInv c =
     ((\<forall>h m. fmlookup (ring c) h = Some m \<longrightarrow>
             fmlookup (members c) m = Some m \<and> h \<in> set (replicaHashes c m))
      \<and> (\<forall>n m. fmlookup (members c) n = Some m \<longrightarrow> m = n))"

definition instInv :: "Consistent \<Rightarrow> bool" where
  "instInv c =
     (partitionCount c < 2 ^ 64
      \<and> (\<forall>avg. AverageLoad c = Inr avg \<longrightarrow>
             tableInv (ring c) avg (int_of_uint64 ` {..<partitionCount c}) (partitions c, loads c))
      \<and> registryInv c)"

text \<open>
  An order in which \<open>range c.members\<close> may visit the registry: every entry of the
  registry, each once.
\<close>

definition rangeOrder :: "Consistent \<Rightarrow> (string \<times> member) list \<Rightarrow> bool" where
  "rangeOrder c entries =
     (distinct (map fst entries)
      \<and> fset_of_list (map fst entries) = fmdom (members c)
      \<and> list_all (\<lambda>e. fmlookup (members c) (fst e) = Some (snd e)) entries)"

text \<open>
  A hasher for the examples: it reads the bytes as a number in base 256.
\<close>

definition demoHasher :: "string \<Rightarrow> uint64" where
  "demoHasher bs = foldl (\<lambda>a ch. 256 * a + of_char ch) 0 bs"

definition demoConfig :: "int \<Rightarrow> int \<Rightarrow> real \<Rightarrow> Config" where
  "demoConfig p r f =
     \<lparr>Hasher = Some demoHasher, PartitionCount = p, ReplicationFactor = r, LoadFactor = f\<rparr>"

section \<open>Fields that the operations leave alone\<close>

lemma addFold_fields:
  "members (fold (addReplica m) is c) = members c
   \<and> config (fold (addReplica m) is c) = config c
   \<and> hasher (fold (addReplica m) is c) = hasher c
   \<and> partitionCount (fold (addReplica m) is c) = partitionCount c
   \<and> loads (fold (addReplica m) is c) = loads c
   \<and> partitions (fold (addReplica m) is c) = partitions c"
  by (induction "is" arbitrary: c) (simp_all add: addReplica_def Let_def)

lemma add_fields [simp]:
  "members (add c m) = fmupd m m (members c)"
  "config (add c m) = config c"
  "hasher (add c m) = hasher c"
  "partitionCount (add c m) = partitionCount c"
  "loads (add c m) = loads c"
  "partitions (add c m) = partitions c"
  by (simp_all add: add_def Let_def addFold_fields)

lemma distributePartitions_fields:
  "distributePartitions c = Inr c' \<Longrightarrow>
     members c' = members c \<and> config c' = config c \<and> hasher c' = hasher c
     \<and> partitionCount c' = partitionCount c \<and> ring c' = ring c \<and> sortedSet c' = sortedSet c"
  by (auto simp: distributePartitions_def split: sum.splits prod.splits)

section \<open>A distribution pass\<close>

lemma walk_Inr:
  assumes "walk c pid avg count idx t = Inr t'"
  shows "\<exists>m h. fmlookup (ring c) h = Some m \<and> int (loadOf (snd t) m) + 1 \<le> avg
           \<and> t' = (fmupd pid m (fst t), fmupd m (loadOf (snd t) m + 1) (snd t))"
  using assms
proof (induction c pid avg count idx t rule: walk.induct)
  case (1 c partID avgLoad count idx parts lds)
  show ?case
  proof (cases "fmlookup (ring c) (sortedSet c ! idx)")
    case None
    with "1.prems" show ?thesis
      by (subst (asm) walk.simps) (simp split: if_splits)
  next
    case (Some member)
    show ?thesis
    proof (cases "int (loadOf lds member) + 1 \<le> avgLoad")
      case True
      with "1.prems" Some show ?thesis
        by (subst (asm) walk.simps) (auto split: if_splits simp: loadOf_def)
    next
      case False
      from "1.prems" have a: "\<not> length (sortedSet c) \<le> count + 1" "\<not> length (sortedSet c) \<le> idx"
        by (subst (asm) walk.simps, simp split: if_splits)+
      from "1.prems" a Some False
      have "walk c partID avgLoad (count + 1)
              (if idx + 1 \<ge> length (sortedSet c) then 0 else idx + 1) (parts, lds) = Inr t'"
        by (subst (asm) walk.simps) (simp add: loadOf_def)
      from "1.IH" [OF _ _ Some _ _ this] a False show ?thesis
        by (simp add: loadOf_def)
    qed
  qed
qed

lemma finite_owned [simp]: "finite (owned parts m)"
proof -
  have "owned parts m \<subseteq> fmdom' parts" by (auto simp: owned_def intro: fmdom'I)
  moreover have "finite (fmdom' parts)" by (simp add: fmdom'_alt_def)
  ultimately show ?thesis by (rule finite_subset)
qed

lemma owned_fmupd:
  "fmlookup parts pid = None \<Longrightarrow>
     owned (fmupd pid m parts) m' = (if m' = m then insert pid (owned parts m) else owned parts m')"
  by (auto simp: owned_def)

lemma loadOf_fmupd: "loadOf (fmupd m l lds) m' = (if m' = m then l else loadOf lds m')"
  by (simp add: loadOf_def)

lemma tableInv_step:
  assumes inv: "tableInv (ring c) avg S t" and fresh: "pid \<notin> S"
    and w: "walk c pid avg count idx t = Inr t'"
  shows "tableInv (ring c) avg (insert pid S) t'"
proof -
  from walk_Inr [OF w] obtain m h where
    r: "fmlookup (ring c) h = Some m" and le: "int (loadOf (snd t) m) + 1 \<le> avg"
    and t': "t' = (fmupd pid m (fst t), fmupd m (loadOf (snd t) m + 1) (snd t))" by blast
  from inv fresh have none: "fmlookup (fst t) pid = None"
    by (auto simp: tableInv_def)
  then have notin: "pid \<notin> owned (fst t) m" by (simp add: owned_def)
  from inv have cnt: "\<And>m. loadOf (snd t) m = card (owned (fst t) m)"
    by (simp add: tableInv_def)
  have "fmdom' (fst t') = insert pid S" using inv t' by (simp add: tableInv_def)
  moreover have "\<forall>m'. loadOf (snd t') m' = card (owned (fst t') m')"
    using t' cnt notin by (simp add: owned_fmupd [OF none] loadOf_fmupd)
  moreover have "\<forall>m' l. fmlookup (snd t') m' = Some l \<longrightarrow> 0 < l \<and> int l \<le> avg"
    using inv t' le by (auto simp: tableInv_def)
  moreover have "\<forall>k m'. fmlookup (fst t') k = Some m' \<longrightarrow> (\<exists>h. fmlookup (ring c) h = Some m')"
    using inv t' r by (auto simp: tableInv_def)
  ultimately show ?thesis by (simp add: tableInv_def)
qed

lemma distributeLoop_inv:
  assumes "distributeLoop c ks t = Inr t'" and "tableInv (ring c) avg S t"
    and "AverageLoad c = Inr avg" and "distinct (map int_of_uint64 ks)"
    and "int_of_uint64 ` set ks \<inter> S = {}"
  shows "tableInv (ring c) avg (S \<union> int_of_uint64 ` set ks) t'"
  using assms
proof (induction ks arbitrary: t S)
  case Nil
  then show ?case by simp
next
  case (Cons k ks)
  let ?idx = "let n = length (sortedSet c);
                  found = search 0 n (\<lambda>i. sortedSet c ! i \<ge> hasher c (putUint64 (word_of_nat k)))
              in if found \<ge> n then 0 else found"
  from Cons.prems(1) obtain t1 where
    w: "distributeWithLoad c (int_of_uint64 k) ?idx t = Inr t1"
    and rest: "distributeLoop c ks t1 = Inr t'"
    by (auto simp: Let_def split: sum.splits)
  from w Cons.prems(3) have "walk c (int_of_uint64 k) avg 0 ?idx t = Inr t1"
    by (simp add: distributeWithLoad_def)
  moreover from Cons.prems(5) have "int_of_uint64 k \<notin> S" by auto
  ultimately have inv1: "tableInv (ring c) avg (insert (int_of_uint64 k) S) t1"
    using Cons.prems(2) by (intro tableInv_step) 
  from Cons.prems(4,5) have "int_of_uint64 ` set ks \<inter> insert (int_of_uint64 k) S = {}"
    by auto
  with Cons.IH [OF rest inv1 Cons.prems(3)] Cons.prems(4)
  have "tableInv (ring c) avg (insert (int_of_uint64 k) S \<union> int_of_uint64 ` set ks) t'" by simp
  then show ?case by simp
qed

lemma int_of_uint64_inj: "inj_on int_of_uint64 {..<2 ^ 64}"
proof (rule inj_onI)
  fix x y :: nat assume "x \<in> {..<2 ^ 64}" "y \<in> {..<2 ^ 64}" and e: "int_of_uint64 x = int_of_uint64 y"
  then have b: "x < 2 ^ 64" "y < 2 ^ 64" by simp_all
  from e have "(word_of_nat x :: uint64) = word_of_nat y"
    by (simp add: int_of_uint64_def signed_word_eqI)
  then have "unat (word_of_nat x :: uint64) = unat (word_of_nat y :: uint64)" by simp
  with b show "x = y" by (simp add: unat_of_nat)
qed

lemma tableInv_empty: "tableInv rng avg {} (fmempty, fmempty)"
  by (simp add: tableInv_def loadOf_def owned_def)

lemma distributePartitions_inv:
  assumes "distributePartitions c = Inr c'" and "AverageLoad c = Inr avg"
    and "partitionCount c \<le> 2 ^ 64"
  shows "tableInv (ring c) avg (int_of_uint64 ` {..<partitionCount c}) (partitions c', loads c')"
proof -
  from assms(1) obtain parts lds where
    l: "distributeLoop c [0..<partitionCount c] (fmempty, fmempty) = Inr (parts, lds)"
    and c': "c' = c\<lparr>loads := lds, partitions := parts\<rparr>"
    by (auto simp: distributePartitions_def split: sum.splits prod.splits)
  have "inj_on int_of_uint64 (set [0..<partitionCount c])"
    using assms(3) by (intro inj_on_subset [OF int_of_uint64_inj]) auto
  then have d: "distinct (map int_of_uint64 [0..<partitionCount c])"
    by (simp add: distinct_map)
  from distributeLoop_inv [OF l tableInv_empty assms(2) d]
  have "tableInv (ring c) avg (int_of_uint64 ` set [0..<partitionCount c]) (parts, lds)" by simp
  moreover have "set [0..<partitionCount c] = {..<partitionCount c}" by auto
  ultimately show ?thesis using c' by simp
qed

lemma tableInv_avg_pos:
  assumes "tableInv rng avg S t" and "S \<noteq> {}"
  shows "1 \<le> avg"
proof -
  from assms obtain k where "k \<in> fmdom' (fst t)" by (auto simp: tableInv_def)
  then obtain m where km: "fmlookup (fst t) k = Some m" by (auto simp: fmlookup_dom'_iff)
  then have "k \<in> owned (fst t) m" by (simp add: owned_def)
  then have "card (owned (fst t) m) \<noteq> 0" by auto
  with assms(1) have "loadOf (snd t) m \<noteq> 0" by (simp add: tableInv_def)
  then obtain l where "fmlookup (snd t) m = Some l" by (auto simp: loadOf_def split: option.splits)
  with assms(1) have "0 < l \<and> int l \<le> avg" unfolding tableInv_def by blast
  then show ?thesis by linarith
qed

lemma roundHalfEven_le_ceiling: "roundHalfEven r \<le> \<lceil>r\<rceil>"
proof (cases "r = of_int \<lfloor>r\<rfloor>")
  case True
  then have "r - of_int \<lfloor>r\<rfloor> = 0" by simp
  then show ?thesis by (simp add: roundHalfEven_def Let_def)
next
  case False
  then have "\<lceil>r\<rceil> = \<lfloor>r\<rfloor> + 1" by (simp add: ceiling_altdef)
  then show ?thesis by (simp add: roundHalfEven_def Let_def)
qed

lemma roundFloat64_le_ceiling: "roundFloat64 x \<le> of_int \<lceil>x\<rceil>"
proof (cases "x = 0 \<or> \<not> max (binade x) (- 1022) - 52 \<le> 0")
  case True
  then show ?thesis by (auto simp: roundFloat64_def Let_def)
next
  case False
  define n where "n = nat (- (max (binade x) (- 1022) - 52))"
  let ?s = "(2::real) ^ n"
  from False have r: "roundFloat64 x = of_int (roundHalfEven (x * ?s)) / ?s"
    by (simp add: roundFloat64_def Let_def n_def)
  have "x * ?s \<le> of_int \<lceil>x\<rceil> * ?s" by (intro mult_right_mono) simp_all
  also have "\<dots> = of_int (\<lceil>x\<rceil> * 2 ^ n)" by simp
  finally have "\<lceil>x * ?s\<rceil> \<le> \<lceil>x\<rceil> * 2 ^ n" by (simp only: ceiling_le_iff)
  with roundHalfEven_le_ceiling [of "x * ?s"] have "roundHalfEven (x * ?s) \<le> \<lceil>x\<rceil> * 2 ^ n"
    by linarith
  then have "(of_int (roundHalfEven (x * ?s)) :: real) \<le> of_int (\<lceil>x\<rceil> * 2 ^ n)"
    by (simp only: of_int_le_iff)
  then have "of_int (roundHalfEven (x * ?s)) / ?s \<le> of_int \<lceil>x\<rceil>"
    by (simp add: pos_divide_le_eq)
  with r show ?thesis by simp
qed

lemma ceiling_roundFloat64_le: "\<lceil>roundFloat64 x\<rceil> \<le> \<lceil>x\<rceil>"
  using roundFloat64_le_ceiling [of x] by (simp add: ceiling_le_iff)

lemma roundFloat64_zero: "roundFloat64 0 = 0"
  by (simp add: roundFloat64_def)

lemma AverageLoad_Inr:
  "AverageLoad c = Inr avg \<longleftrightarrow>
     fcard (fmdom (members c)) \<noteq> 0
     \<and> avg = \<lceil>roundFloat64 (real (partitionCount c div fcard (fmdom (members c)))
                             * LoadFactor (config c))\<rceil>"
  by (auto simp: AverageLoad_def)

lemma AverageLoad_le_cap:
  assumes a: "AverageLoad c = Inr avg" and p: "partitionCount c = 0 \<or> 1 \<le> avg"
  shows "avg \<le> averageLoadCap c"
proof (cases "partitionCount c = 0")
  case True
  with a show ?thesis by (simp add: AverageLoad_Inr averageLoadCap_def roundFloat64_zero)
next
  case False
  let ?n = "fcard (fmdom (members c))" and ?F = "LoadFactor (config c)"
  let ?q = "partitionCount c div ?n"
  from a have n: "?n \<noteq> 0" and avg: "avg = \<lceil>roundFloat64 (real ?q * ?F)\<rceil>"
    by (simp_all add: AverageLoad_Inr)
  have rnd: "avg \<le> \<lceil>real ?q * ?F\<rceil>" unfolding avg by (rule ceiling_roundFloat64_le)
  with False p have "0 < \<lceil>real ?q * ?F\<rceil>" by linarith
  then have pos: "0 < real ?q * ?F" by (simp add: ceiling_less_iff less_ceiling_iff)
  have "0 \<le> real ?q" by simp
  with pos have F: "0 < ?F" by (metis mult_le_0_iff not_le order_less_imp_le)
  have "?q * ?n \<le> partitionCount c" by simp
  then have "real ?q * real ?n \<le> real (partitionCount c)"
    by (metis of_nat_le_iff of_nat_mult)
  moreover from n have "0 < real ?n" by (metis of_nat_0_less_iff neq0_conv)
  ultimately have "real ?q \<le> real (partitionCount c) / real ?n"
    by (metis pos_le_divide_eq)
  with F have "real ?q * ?F \<le> real (partitionCount c) / real ?n * ?F"
    by (intro mult_right_mono) simp_all
  then have "\<lceil>real ?q * ?F\<rceil> \<le> averageLoadCap c"
    unfolding averageLoadCap_def by (rule ceiling_mono)
  with rnd show ?thesis by simp
qed

lemma tableInv_dom_loads:
  assumes "tableInv rng avg S t"
  shows "fmdom' (snd t) = {m. owned (fst t) m \<noteq> {}}"
proof (rule set_eqI)
  fix m
  from assms have cnt: "loadOf (snd t) m = card (owned (fst t) m)" by (simp add: tableInv_def)
  show "m \<in> fmdom' (snd t) \<longleftrightarrow> m \<in> {m. owned (fst t) m \<noteq> {}}"
  proof (cases "fmlookup (snd t) m")
    case None
    with cnt have "card (owned (fst t) m) = 0" by (simp add: loadOf_def)
    then have "owned (fst t) m = {}" by simp
    with None show ?thesis by (simp add: fmlookup_dom'_iff)
  next
    case (Some l)
    with assms have "0 < l" unfolding tableInv_def by blast
    with cnt Some have "0 < card (owned (fst t) m)" by (simp add: loadOf_def card_gt_0_iff)
    then have "owned (fst t) m \<noteq> {}" by (simp add: card_gt_0_iff)
    with Some show ?thesis by (simp add: fmlookup_dom'_iff)
  qed
qed

lemma tableInv_sum:
  assumes "tableInv rng avg S t"
  shows "(\<Sum>m\<in>fmdom' (snd t). loadOf (snd t) m) = card S"
proof -
  let ?D = "fmdom' (snd t)"
  have fin: "finite ?D" by (simp add: fmdom'_alt_def)
  have "(\<Sum>m\<in>?D. loadOf (snd t) m) = (\<Sum>m\<in>?D. card (owned (fst t) m))"
    using assms by (simp add: tableInv_def)
  also have "\<dots> = card (\<Union>m\<in>?D. owned (fst t) m)"
  proof (rule card_UN_disjoint [symmetric])
    show "finite ?D" by (rule fin)
    show "\<forall>i\<in>?D. finite (owned (fst t) i)" by simp
    show "\<forall>i\<in>?D. \<forall>j\<in>?D. i \<noteq> j \<longrightarrow> owned (fst t) i \<inter> owned (fst t) j = {}"
      by (auto simp: owned_def)
  qed
  also have "(\<Union>m\<in>?D. owned (fst t) m) = fmdom' (fst t)"
  proof (rule set_eqI)
    fix k
    have "k \<in> (\<Union>m\<in>?D. owned (fst t) m) \<longleftrightarrow> (\<exists>m. k \<in> owned (fst t) m)"
      unfolding tableInv_dom_loads [OF assms] by blast
    also have "\<dots> \<longleftrightarrow> k \<in> fmdom' (fst t)"
      by (simp add: owned_def fmlookup_dom'_iff)
    finally show "k \<in> (\<Union>m\<in>?D. owned (fst t) m) \<longleftrightarrow> k \<in> fmdom' (fst t)" .
  qed
  also have "fmdom' (fst t) = S" using assms by (simp add: tableInv_def)
  finally show ?thesis .
qed

section \<open>Invariants of an instance\<close>

lemma instInv_partitionCount: "instInv c \<Longrightarrow> partitionCount c < 2 ^ 64"
  unfolding instInv_def by blast

lemma instInv_registry: "instInv c \<Longrightarrow> registryInv c"
  unfolding instInv_def by blast

lemma instInv_table:
  "instInv c \<Longrightarrow> AverageLoad c = Inr avg \<Longrightarrow>
     tableInv (ring c) avg (int_of_uint64 ` {..<partitionCount c}) (partitions c, loads c)"
  unfolding instInv_def by blast

lemma registryInv_ring:
  "registryInv c \<Longrightarrow> fmlookup (ring c) h = Some m \<Longrightarrow>
     fmlookup (members c) m = Some m \<and> h \<in> set (replicaHashes c m)"
  unfolding registryInv_def by blast

lemma registryInv_name: "registryInv c \<Longrightarrow> fmlookup (members c) n = Some m \<Longrightarrow> m = n"
  unfolding registryInv_def by blast

lemma addReplica_fields [simp]:
  "members (addReplica m i c) = members c"
  "config (addReplica m i c) = config c"
  "hasher (addReplica m i c) = hasher c"
  "partitionCount (addReplica m i c) = partitionCount c"
  by (simp_all add: addReplica_def Let_def)

lemma addFold_ring:
  "fmlookup (ring (fold (addReplica m) is c)) h =
     (if h \<in> (\<lambda>i. hasher c (replicaKey m i)) ` set is then Some m else fmlookup (ring c) h)"
proof (induction "is" arbitrary: c)
  case Nil
  then show ?case by simp
next
  case (Cons i "is")
  have "fmlookup (ring (addReplica m i c)) h =
          (if h = hasher c (replicaKey m i) then Some m else fmlookup (ring c) h)"
    by (auto simp: addReplica_def Let_def)
  with Cons [of "addReplica m i c"] show ?case by auto
qed

lemma add_ring:
  "fmlookup (ring (add c m)) h =
     (if h \<in> set (replicaHashes c m) then Some m else fmlookup (ring c) h)"
  by (simp add: add_def Let_def addFold_ring replicaHashes_def)

lemma replicaHashes_cong:
  "hasher c' = hasher c \<Longrightarrow> config c' = config c \<Longrightarrow> replicaHashes c' = replicaHashes c"
  by (rule ext) (simp add: replicaHashes_def)

lemma AverageLoad_cong:
  "members c' = members c \<Longrightarrow> partitionCount c' = partitionCount c \<Longrightarrow> config c' = config c
     \<Longrightarrow> AverageLoad c' = AverageLoad c"
  by (simp add: AverageLoad_def)

lemma registryInv_cong:
  assumes "ring c' = ring c" and "members c' = members c"
    and "hasher c' = hasher c" and "config c' = config c"
  shows "registryInv c' = registryInv c"
  unfolding registryInv_def assms(1,2) replicaHashes_cong [OF assms(3,4)] ..

lemma removeReplica_fields [simp]:
  "members (removeReplica n i c) = members c"
  "config (removeReplica n i c) = config c"
  "hasher (removeReplica n i c) = hasher c"
  "partitionCount (removeReplica n i c) = partitionCount c"
  "loads (removeReplica n i c) = loads c"
  "partitions (removeReplica n i c) = partitions c"
  by (simp_all add: removeReplica_def delSlice_def Let_def)

lemma removeFold_fields:
  "members (fold (removeReplica n) is c) = members c
   \<and> config (fold (removeReplica n) is c) = config c
   \<and> hasher (fold (removeReplica n) is c) = hasher c
   \<and> partitionCount (fold (removeReplica n) is c) = partitionCount c
   \<and> loads (fold (removeReplica n) is c) = loads c
   \<and> partitions (fold (removeReplica n) is c) = partitions c"
  by (induction "is" arbitrary: c) simp_all

lemma removeFold_ring:
  "fmlookup (ring (fold (removeReplica n) is c)) h =
     (if h \<in> (\<lambda>i. hasher c (replicaKey n i)) ` set is then None else fmlookup (ring c) h)"
proof (induction "is" arbitrary: c)
  case Nil
  then show ?case by simp
next
  case (Cons i "is")
  have "fmlookup (ring (removeReplica n i c)) h =
          (if h = hasher c (replicaKey n i) then None else fmlookup (ring c) h)"
    by (auto simp: removeReplica_def delSlice_def Let_def)
  with Cons [of "removeReplica n i c"] show ?case by auto
qed

lemma registryInv_add:
  assumes i: "registryInv c"
  shows "registryInv (add c m)"
proof -
  have rh: "replicaHashes (add c m) = replicaHashes c" by (rule replicaHashes_cong) simp_all
  have A: "\<forall>h m'. fmlookup (ring (add c m)) h = Some m' \<longrightarrow>
        fmlookup (members (add c m)) m' = Some m' \<and> h \<in> set (replicaHashes (add c m) m')"
  proof (intro allI impI)
    fix h m' assume l: "fmlookup (ring (add c m)) h = Some m'"
    show "fmlookup (members (add c m)) m' = Some m' \<and> h \<in> set (replicaHashes (add c m) m')"
    proof (cases "h \<in> set (replicaHashes c m)")
      case True
      with l have "m' = m" by (simp add: add_ring)
      with True show ?thesis by (simp add: rh)
    next
      case False
      with l have "fmlookup (ring c) h = Some m'" by (simp add: add_ring)
      from registryInv_ring [OF i this] show ?thesis by (simp add: rh)
    qed
  qed
  have B: "\<forall>n m'. fmlookup (members (add c m)) n = Some m' \<longrightarrow> m' = n"
  proof (intro allI impI)
    fix n m' assume l: "fmlookup (members (add c m)) n = Some m'"
    show "m' = n"
    proof (cases "n = m")
      case True
      with l show ?thesis by simp
    next
      case False
      with l have "fmlookup (members c) n = Some m'" by simp
      from registryInv_name [OF i this] show ?thesis .
    qed
  qed
  from A B show ?thesis unfolding registryInv_def by (rule conjI)
qed

lemma registryInv_removed:
  assumes i: "registryInv c"
  shows "registryInv ((fold (removeReplica n) [0..<nat (ReplicationFactor (config c))] c)
           \<lparr>members := fmdrop n (members c)\<rparr>)"
    (is "registryInv ?c2")
proof -
  note f1 = removeFold_fields [of n "[0..<nat (ReplicationFactor (config c))]" c]
  let ?c1 = "fold (removeReplica n) [0..<nat (ReplicationFactor (config c))] c"
  have ring2: "fmlookup (ring ?c1) h =
      (if h \<in> set (replicaHashes c n) then None else fmlookup (ring c) h)" for h
    by (simp add: removeFold_ring replicaHashes_def)
  have rh: "replicaHashes ?c2 = replicaHashes c"
    using f1 by (intro replicaHashes_cong) simp_all
  have A: "\<forall>h m. fmlookup (ring ?c2) h = Some m \<longrightarrow>
        fmlookup (members ?c2) m = Some m \<and> h \<in> set (replicaHashes ?c2 m)"
  proof (intro allI impI)
    fix h m assume "fmlookup (ring ?c2) h = Some m"
    then have "fmlookup (ring ?c1) h = Some m" by simp
    then have hn: "h \<notin> set (replicaHashes c n)" and old: "fmlookup (ring c) h = Some m"
      by (simp_all add: ring2 split: if_splits)
    from registryInv_ring [OF i old]
    have m: "fmlookup (members c) m = Some m" and hm: "h \<in> set (replicaHashes c m)" by simp_all
    from hn hm have "m \<noteq> n" by blast
    with m hm show "fmlookup (members ?c2) m = Some m \<and> h \<in> set (replicaHashes ?c2 m)"
      by (simp add: rh)
  qed
  have B: "\<forall>k m. fmlookup (members ?c2) k = Some m \<longrightarrow> m = k"
  proof (intro allI impI)
    fix k m assume "fmlookup (members ?c2) k = Some m"
    then have "fmlookup (members c) k = Some m" by (simp split: if_splits)
    from registryInv_name [OF i this] show "m = k" .
  qed
  from A B show ?thesis unfolding registryInv_def by (rule conjI)
qed

lemma instInv_installed:
  assumes d: "distributePartitions c1 = Inr c2" and p: "partitionCount c1 < 2 ^ 64"
    and r: "registryInv c1"
  shows "instInv c2"
proof -
  from distributePartitions_fields [OF d] have
    fm: "members c2 = members c1" and fc: "config c2 = config c1" and fh: "hasher c2 = hasher c1"
    and fp: "partitionCount c2 = partitionCount c1" and fr: "ring c2 = ring c1"
    by simp_all
  have al: "AverageLoad c2 = AverageLoad c1"
    using fm fp fc by (rule AverageLoad_cong)
  have rg: "registryInv c2 = registryInv c1"
    using fr fm fh fc by (rule registryInv_cong)
  show ?thesis
    unfolding instInv_def fp fr al rg
  proof (intro conjI allI impI)
    show "partitionCount c1 < 2 ^ 64" by (rule p)
  next
    fix avg assume "AverageLoad c1 = Inr avg"
    from distributePartitions_inv [OF d this] p
    show "tableInv (ring c1) avg (int_of_uint64 ` {..<partitionCount c1}) (partitions c2, loads c2)"
      by simp
  next
    show "registryInv c1" by (rule r)
  qed
qed

lemma instInv_Add:
  assumes i: "instInv c" and a: "Add c m = (None, c')"
  shows "instInv c'"
proof (cases "fmlookup (members c) m = None")
  case False
  with a have "c' = c" by (simp add: Add_def)
  with i show ?thesis by simp
next
  case True
  with a have d: "distributePartitions (add c m) = Inr c'"
    by (auto simp: Add_def Let_def split: sum.splits)
  show ?thesis
  proof (rule instInv_installed [OF d])
    from instInv_partitionCount [OF i] show "partitionCount (add c m) < 2 ^ 64" by simp
    from instInv_registry [OF i] show "registryInv (add c m)" by (rule registryInv_add)
  qed
qed

lemma instInv_Remove:
  assumes i: "instInv c" and a: "Remove c n = (None, c')"
  shows "instInv c'"
proof (cases "fmlookup (members c) n = None")
  case True
  with a have "c' = c" by (simp add: Remove_def)
  with i show ?thesis by simp
next
  case False
  define c1 where "c1 = fold (removeReplica n) [0..<nat (ReplicationFactor (config c))] c"
  define c2 where "c2 = c1\<lparr>members := fmdrop n (members c1)\<rparr>"
  note f1 = removeFold_fields [of n "[0..<nat (ReplicationFactor (config c))]" c, folded c1_def]
  from f1 have c2: "c2 = c1\<lparr>members := fmdrop n (members c)\<rparr>" by (simp add: c2_def)
  have p2: "partitionCount c2 < 2 ^ 64"
    using instInv_partitionCount [OF i] f1 by (simp add: c2_def)
  have r2: "registryInv c2"
    unfolding c2 c1_def using instInv_registry [OF i] by (rule registryInv_removed)
  show ?thesis
  proof (cases "fcard (fmdom (members c2)) = 0")
    case True
    with a False have c': "c' = c2\<lparr>partitions := fmempty\<rparr>"
      by (simp add: Remove_def Let_def c1_def c2_def)
    from True have al: "AverageLoad c' = Inl DivideByZero" by (simp add: c' AverageLoad_def)
    have rg: "registryInv c' = registryInv c2"
      by (rule registryInv_cong) (simp_all add: c')
    have fp: "partitionCount c' = partitionCount c2" by (simp add: c')
    show ?thesis
      unfolding instInv_def al rg fp using p2 r2 by simp
  next
    case nonempty: False
    with a False have d: "distributePartitions c2 = Inr c'"
      by (auto simp: Remove_def Let_def c1_def c2_def split: sum.splits)
    from instInv_installed [OF d p2 r2] show ?thesis .
  qed
qed

lemma instInv_performAll:
  "instInv c \<Longrightarrow> performAll c ops = Inr c' \<Longrightarrow> instInv c'"
proof (induction ops arbitrary: c)
  case Nil
  then show ?case by simp
next
  case (Cons x xs)
  from Cons.prems(2) obtain c1 where s: "perform c x = (None, c1)" and r: "performAll c1 xs = Inr c'"
    by (auto split: prod.splits option.splits)
  have "instInv c1"
  proof (cases x)
    case (AddMember m)
    with s Cons.prems(1) show ?thesis by (auto intro: instInv_Add)
  next
    case (RemoveMember n)
    with s Cons.prems(1) show ?thesis by (auto intro: instInv_Remove)
  qed
  from Cons.IH [OF this r] show ?case .
qed

lemma uint64_of_int_bound: "uint64_of_int i < 2 ^ 64"
  unfolding uint64_of_int_def using unsigned_less [of "word_of_int i :: uint64"] by simp

lemma addAll_fields:
  "config (fold (\<lambda>member c. add c member) ms c) = config c
   \<and> hasher (fold (\<lambda>member c. add c member) ms c) = hasher c
   \<and> partitionCount (fold (\<lambda>member c. add c member) ms c) = partitionCount c"
  by (induction ms arbitrary: c) simp_all

lemma addAll_registryInv:
  "registryInv c \<Longrightarrow> registryInv (fold (\<lambda>member c. add c member) ms c)"
  by (induction ms arbitrary: c) (simp_all add: registryInv_add)

lemma New_Inr:
  assumes "New ms cfg = Inr c"
  shows "instInv c \<and> config c = cfg \<and> Hasher cfg = Some (hasher c)
         \<and> partitionCount c = uint64_of_int (PartitionCount cfg)"
proof -
  from assms obtain h where h: "Hasher cfg = Some h" by (auto simp: New_def split: option.splits)
  define c0 where "c0 = \<lparr>config = cfg, hasher = h, sortedSet = [],
                     partitionCount = uint64_of_int (PartitionCount cfg),
                     loads = fmempty, members = fmempty,
                     partitions = fmempty, ring = fmempty\<rparr>"
  define c1 where "c1 = fold (\<lambda>member c. add c member) (case ms of None \<Rightarrow> [] | Some l \<Rightarrow> l) c0"
  have r0: "registryInv c0" by (simp add: registryInv_def c0_def)
  then have r1: "registryInv c1" unfolding c1_def by (rule addAll_registryInv)
  from addAll_fields [of "case ms of None \<Rightarrow> [] | Some l \<Rightarrow> l" c0, folded c1_def]
  have f1: "config c1 = cfg" "hasher c1 = h" "partitionCount c1 = uint64_of_int (PartitionCount cfg)"
    by (simp_all add: c0_def)
  with uint64_of_int_bound [of "PartitionCount cfg"] have p1: "partitionCount c1 < 2 ^ 64" by simp
  show ?thesis
  proof (cases ms)
    case None
    with assms h have c: "c = c0" by (simp add: New_def c0_def)
    have "AverageLoad c0 = Inl DivideByZero" by (simp add: AverageLoad_def c0_def)
    moreover have "partitionCount c0 < 2 ^ 64"
      using uint64_of_int_bound [of "PartitionCount cfg"] by (simp add: c0_def)
    ultimately have "instInv c0"
      unfolding instInv_def using r0 by simp
    with c h show ?thesis by (simp add: c0_def)
  next
    case (Some l)
    with assms h have d: "distributePartitions c1 = Inr c"
      by (simp add: New_def c0_def c1_def)
    from instInv_installed [OF d p1 r1] distributePartitions_fields [OF d] f1 h
    show ?thesis by simp
  qed
qed

lemma Add_fields:
  "Add c m = (r, c') \<Longrightarrow>
     config c' = config c \<and> hasher c' = hasher c \<and> partitionCount c' = partitionCount c"
  by (auto simp: Add_def Let_def split: if_splits sum.splits dest: distributePartitions_fields)

lemma Remove_fields:
  "Remove c n = (r, c') \<Longrightarrow>
     config c' = config c \<and> hasher c' = hasher c \<and> partitionCount c' = partitionCount c"
  by (auto simp: Remove_def Let_def removeFold_fields split: if_splits sum.splits
        dest: distributePartitions_fields)

lemma performAll_fields:
  "performAll c ops = Inr c' \<Longrightarrow>
     config c' = config c \<and> hasher c' = hasher c \<and> partitionCount c' = partitionCount c"
proof (induction ops arbitrary: c)
  case Nil
  then show ?case by simp
next
  case (Cons x xs)
  from Cons.prems obtain c1 where s: "perform c x = (None, c1)" and r: "performAll c1 xs = Inr c'"
    by (auto split: prod.splits option.splits)
  from s have "config c1 = config c \<and> hasher c1 = hasher c \<and> partitionCount c1 = partitionCount c"
    by (cases x) (auto dest: Add_fields Remove_fields)
  with Cons.IH [OF r] show ?case by simp
qed

lemma runCalls_Inr:
  assumes "runCalls ms cfg ops = Inr c"
  shows "instInv c \<and> config c = cfg \<and> Hasher cfg = Some (hasher c)
         \<and> partitionCount c = uint64_of_int (PartitionCount cfg)"
proof -
  from assms obtain c0 where n: "New ms cfg = Inr c0" and p: "performAll c0 ops = Inr c"
    by (auto simp: runCalls_def split: sum.splits)
  from New_Inr [OF n] instInv_performAll [OF _ p] performAll_fields [OF p]
  show ?thesis by simp
qed

section \<open>The installed table of an instance\<close>

lemma instance_table:
  assumes r: "runCalls ms cfg ops = Inr c" and ne: "fmdom (members c) \<noteq> {||}"
  obtains avg where "AverageLoad c = Inr avg"
    and "tableInv (ring c) avg (int_of_uint64 ` {..<partitionCount c}) (partitions c, loads c)"
    and "0 \<le> avg" and "avg \<le> averageLoadCap c"
proof -
  from ne have n0: "fcard (fmdom (members c)) \<noteq> 0" by (simp add: fcard_0_eq)
  define avg where
    "avg = \<lceil>roundFloat64 (real (partitionCount c div fcard (fmdom (members c)))
                            * LoadFactor (config c))\<rceil>"
  from n0 have a: "AverageLoad c = Inr avg" by (simp add: AverageLoad_Inr avg_def)
  from runCalls_Inr [OF r] have "instInv c" by simp
  from instInv_table [OF this a]
  have t: "tableInv (ring c) avg (int_of_uint64 ` {..<partitionCount c}) (partitions c, loads c)" .
  have p: "partitionCount c = 0 \<or> 1 \<le> avg"
  proof (cases "partitionCount c = 0")
    case False
    then have "int_of_uint64 ` {..<partitionCount c} \<noteq> {}" by auto
    from tableInv_avg_pos [OF t this] show ?thesis by simp
  qed simp
  have "0 \<le> avg"
  proof (cases "partitionCount c = 0")
    case True
    then show ?thesis by (simp add: avg_def roundFloat64_zero)
  next
    case False
    with p show ?thesis by simp
  qed
  with that [OF a t] AverageLoad_le_cap [OF a p] show thesis by simp
qed

lemma tableInv_load_le:
  assumes "tableInv rng avg S (parts, lds)" and "0 \<le> avg"
  shows "int (loadOf lds m) \<le> avg"
proof (cases "fmlookup lds m")
  case None
  with assms(2) show ?thesis by (simp add: loadOf_def)
next
  case (Some l)
  with assms(1) have "int l \<le> avg" unfolding tableInv_def by auto
  with Some show ?thesis by (simp add: loadOf_def)
qed

lemma runCalls_projr:
  "(case runCalls ms cfg ops of Inl e \<Rightarrow> False | Inr c \<Rightarrow> True)
     \<Longrightarrow> runCalls ms cfg ops = Inr (projr (runCalls ms cfg ops))"
  by (cases "runCalls ms cfg ops") simp_all


lemma int_of_uint64_small: "k < 2 ^ 63 \<Longrightarrow> int_of_uint64 k = int k"
  by (simp add: int_of_uint64_def signed_of_nat signed_take_bit_int_eq_self)

lemma uint64_of_int_small: "0 \<le> i \<Longrightarrow> i < 2 ^ 64 \<Longrightarrow> uint64_of_int i = nat i"
  by (simp add: uint64_of_int_def unsigned_of_int take_bit_int_eq_self)

lemma registry_has_loads:
  assumes t: "tableInv (ring c) avg S (partitions c, loads c)" and r: "registryInv c"
  shows "fmdom' (loads c) \<subseteq> fmdom' (members c)"
proof
  fix m assume "m \<in> fmdom' (loads c)"
  with tableInv_dom_loads [OF t] have "owned (partitions c) m \<noteq> {}" by simp
  then obtain k where "fmlookup (partitions c) k = Some m" by (auto simp: owned_def)
  moreover from t have "\<forall>k m. fmlookup (partitions c) k = Some m
      \<longrightarrow> (\<exists>h. fmlookup (ring c) h = Some m)" by (simp add: tableInv_def)
  ultimately obtain h where "fmlookup (ring c) h = Some m" by blast
  from registryInv_ring [OF r this] show "m \<in> fmdom' (members c)" by (simp add: fmdom'I)
qed


text \<open>
  Claim C1. For an instance with a non-empty member set (the result of a constructor
  call and any calls of \<open>Add\<close> and \<open>Remove\<close> that returned), the load recorded for
  each member in the installed load map, and the number of partitions the installed
  table maps to the member, is at most \<open>ceil((P / memberCount) * F)\<close>, with
  \<open>memberCount\<close> the number of registered members (it has not changed since the pass
  that installed the table). The recorded load is the number of partitions of the
  member, and the bound that the code enforces, the value of \<open>AverageLoad\<close>, is itself
  at most the cap of the claim.
\<close>

theorem loads_within_average_load_cap:
  assumes "runCalls ms cfg ops = Inr c" and "fmdom (members c) \<noteq> {||}"
  shows "(\<forall>m l. fmlookup (loads c) m = Some l \<longrightarrow> int l \<le> averageLoadCap c)
         \<and> (\<forall>m. int (card (owned (partitions c) m)) \<le> averageLoadCap c)
         \<and> (\<forall>m. card (owned (partitions c) m) = loadOf (loads c) m)
         \<and> (\<exists>avg. AverageLoad c = Inr avg \<and> avg \<le> averageLoadCap c
                \<and> (\<forall>m. int (loadOf (loads c) m) \<le> avg))"
proof -
  from assms obtain avg where a: "AverageLoad c = Inr avg"
    and t: "tableInv (ring c) avg (int_of_uint64 ` {..<partitionCount c}) (partitions c, loads c)"
    and nn: "0 \<le> avg" and le: "avg \<le> averageLoadCap c"
    by (rule instance_table)
  have ld: "int (loadOf (loads c) m) \<le> avg" for m
    using t nn by (rule tableInv_load_le)
  have cnt: "card (owned (partitions c) m) = loadOf (loads c) m" for m
    using t by (simp add: tableInv_def)
  have "int l \<le> averageLoadCap c" if "fmlookup (loads c) m = Some l" for m l
    using ld [of m] le that by (simp add: loadOf_def)
  moreover have "int (card (owned (partitions c) m)) \<le> averageLoadCap c" for m
    using ld [of m] le by (simp add: cnt)
  ultimately show ?thesis using cnt a le ld by blast
qed


theorem loads_within_average_load_cap_witness:
  "runCalls (Some [''A'', ''B'']) (demoConfig 3 2 (5/4)) [AddMember ''C'', RemoveMember ''A'']
     = Inr (projr (runCalls (Some [''A'', ''B'']) (demoConfig 3 2 (5/4))
                     [AddMember ''C'', RemoveMember ''A'']))
   \<and> fmdom (members (projr (runCalls (Some [''A'', ''B'']) (demoConfig 3 2 (5/4))
                     [AddMember ''C'', RemoveMember ''A'']))) = {|''B'', ''C''|}
   \<and> fmlookup (loads (projr (runCalls (Some [''A'', ''B'']) (demoConfig 3 2 (5/4))
                     [AddMember ''C'', RemoveMember ''A'']))) ''B'' = Some 2
   \<and> averageLoadCap (projr (runCalls (Some [''A'', ''B'']) (demoConfig 3 2 (5/4))
                     [AddMember ''C'', RemoveMember ''A''])) = 2
   \<and> int 2 \<le> averageLoadCap (projr (runCalls (Some [''A'', ''B'']) (demoConfig 3 2 (5/4))
                     [AddMember ''C'', RemoveMember ''A'']))
   \<and> int (card (owned (partitions (projr (runCalls (Some [''A'', ''B'']) (demoConfig 3 2 (5/4))
                     [AddMember ''C'', RemoveMember ''A'']))) ''B''))
        \<le> averageLoadCap (projr (runCalls (Some [''A'', ''B'']) (demoConfig 3 2 (5/4))
                     [AddMember ''C'', RemoveMember ''A'']))
   \<and> card (owned (partitions (projr (runCalls (Some [''A'', ''B'']) (demoConfig 3 2 (5/4))
                     [AddMember ''C'', RemoveMember ''A'']))) ''B'') = 2"
proof -
  let ?r = "runCalls (Some [''A'', ''B'']) (demoConfig 3 2 (5/4)) [AddMember ''C'', RemoveMember ''A'']"
  let ?c = "projr ?r"
  have "case ?r of Inl e \<Rightarrow> False | Inr c \<Rightarrow> True" by code_simp
  then have h1: "?r = Inr ?c" by (rule runCalls_projr)
  have d: "fmdom (members ?c) = {|''B'', ''C''|}" by code_simp
  then have h2: "fmdom (members ?c) \<noteq> {||}" by simp
  have l: "fmlookup (loads ?c) ''B'' = Some 2" by code_simp
  have cap: "averageLoadCap ?c = 2" by code_simp
  have ld: "loadOf (loads ?c) ''B'' = 2" by code_simp
  note t = loads_within_average_load_cap [OF h1 h2]
  from t l have g1: "int 2 \<le> averageLoadCap ?c" by blast
  from t have g2: "int (card (owned (partitions ?c) ''B'')) \<le> averageLoadCap ?c" by blast
  from t ld have g3: "card (owned (partitions ?c) ''B'') = 2" by simp
  from h1 d l cap g1 g2 g3 show ?thesis by blast
qed

text \<open>
  Claim C3. After a constructor call and any sequence of \<open>Add\<close> and \<open>Remove\<close> calls
  that return and leave the member set non-empty, the partition table has an owner,
  and one only, for every partition index below the partition count and no other
  entry, and the loads of all members add up to the partition count. The partition
  ids are the \<open>uint64\<close> counter converted to \<open>int\<close>; for a partition count that is not
  negative in the configuration these are the integers from 0 up to the count.
\<close>

theorem every_partition_owned_and_loads_sum:
  assumes "runCalls ms cfg ops = Inr c" and "fmdom (members c) \<noteq> {||}"
  shows "partitionCount c = uint64_of_int (PartitionCount cfg)
         \<and> fmdom' (partitions c) = int_of_uint64 ` {..<partitionCount c}
         \<and> (\<forall>k. k < partitionCount c \<longrightarrow>
                (\<exists>!m. fmlookup (partitions c) (int_of_uint64 k) = Some m))
         \<and> (0 \<le> PartitionCount cfg \<and> PartitionCount cfg < 2 ^ 63 \<longrightarrow>
                (\<forall>k. (\<exists>m. fmlookup (partitions c) k = Some m)
                       \<longleftrightarrow> 0 \<le> k \<and> k < PartitionCount cfg))
         \<and> (\<Sum>m\<in>fmdom' (loads c). loadOf (loads c) m) = partitionCount c
         \<and> (\<Sum>m\<in>fmdom' (members c). loadOf (loads c) m) = partitionCount c"
proof -
  let ?P = "partitionCount c" and ?S = "int_of_uint64 ` {..<partitionCount c}"
  from assms obtain avg where
    t: "tableInv (ring c) avg ?S (partitions c, loads c)"
    by (rule instance_table)
  from runCalls_Inr [OF assms(1)] have inv: "instInv c"
    and pc: "?P = uint64_of_int (PartitionCount cfg)" by simp_all
  from t have dom: "fmdom' (partitions c) = ?S" by (simp add: tableInv_def)
  have tot: "\<exists>!m. fmlookup (partitions c) (int_of_uint64 k) = Some m" if "k < ?P" for k
  proof -
    from that have "int_of_uint64 k \<in> fmdom' (partitions c)" unfolding dom by simp
    then show ?thesis by (auto simp: fmlookup_dom'_iff)
  qed
  have plain: "(\<exists>m. fmlookup (partitions c) k = Some m) \<longleftrightarrow> 0 \<le> k \<and> k < PartitionCount cfg"
    if r: "0 \<le> PartitionCount cfg \<and> PartitionCount cfg < 2 ^ 63" for k
  proof -
    from r have P: "?P = nat (PartitionCount cfg)" by (simp add: pc uint64_of_int_small)
    from r have "int (nat (PartitionCount cfg)) < int (2 ^ 63)" by simp
    then have lt: "?P < 2 ^ 63" unfolding P by (rule of_nat_less_imp_less)
    have "?S = int ` {..<?P}"
      using lt by (intro image_cong) (simp_all add: int_of_uint64_small)
    also have "\<dots> = {0..<PartitionCount cfg}"
      using r by (simp add: P image_int_atLeastLessThan lessThan_atLeast0)
    finally have "fmdom' (partitions c) = {0..<PartitionCount cfg}" by (simp add: dom)
    then have "k \<in> fmdom' (partitions c) \<longleftrightarrow> 0 \<le> k \<and> k < PartitionCount cfg" by simp
    then show ?thesis by (simp add: fmlookup_dom'_iff)
  qed
  have "inj_on int_of_uint64 {..<?P}"
    using instInv_partitionCount [OF inv] by (intro inj_on_subset [OF int_of_uint64_inj]) auto
  then have card: "card ?S = ?P" by (simp add: card_image)
  from tableInv_sum [OF t] card
  have s1: "(\<Sum>m\<in>fmdom' (loads c). loadOf (loads c) m) = ?P" by simp
  have "(\<Sum>m\<in>fmdom' (members c). loadOf (loads c) m) = (\<Sum>m\<in>fmdom' (loads c). loadOf (loads c) m)"
  proof (rule sum.mono_neutral_right)
    show "finite (fmdom' (members c))" by (simp add: fmdom'_alt_def)
    show "fmdom' (loads c) \<subseteq> fmdom' (members c)"
      using t instInv_registry [OF inv] by (rule registry_has_loads)
    show "\<forall>i\<in>fmdom' (members c) - fmdom' (loads c). loadOf (loads c) i = 0"
      by (auto simp: loadOf_def fmlookup_dom'_iff split: option.splits)
  qed
  with s1 have s2: "(\<Sum>m\<in>fmdom' (members c). loadOf (loads c) m) = ?P" by simp
  from pc dom tot plain s1 s2 show ?thesis by blast
qed

theorem every_partition_owned_and_loads_sum_witness:
  "runCalls (Some [''A'', ''B'']) (demoConfig 3 2 (5/4)) [RemoveMember ''A'', AddMember ''C'']
     = Inr (projr (runCalls (Some [''A'', ''B'']) (demoConfig 3 2 (5/4))
                     [RemoveMember ''A'', AddMember ''C'']))
   \<and> fmdom (members (projr (runCalls (Some [''A'', ''B'']) (demoConfig 3 2 (5/4))
                     [RemoveMember ''A'', AddMember ''C'']))) \<noteq> {||}
   \<and> partitionCount (projr (runCalls (Some [''A'', ''B'']) (demoConfig 3 2 (5/4))
                     [RemoveMember ''A'', AddMember ''C''])) = 3
   \<and> (\<exists>!m. fmlookup (partitions (projr (runCalls (Some [''A'', ''B'']) (demoConfig 3 2 (5/4))
                     [RemoveMember ''A'', AddMember ''C'']))) (int_of_uint64 2) = Some m)
   \<and> (\<exists>m. fmlookup (partitions (projr (runCalls (Some [''A'', ''B'']) (demoConfig 3 2 (5/4))
                     [RemoveMember ''A'', AddMember ''C'']))) 2 = Some m)
   \<and> (\<nexists>m. fmlookup (partitions (projr (runCalls (Some [''A'', ''B'']) (demoConfig 3 2 (5/4))
                     [RemoveMember ''A'', AddMember ''C'']))) 3 = Some m)
   \<and> (\<Sum>m\<in>fmdom' (members (projr (runCalls (Some [''A'', ''B'']) (demoConfig 3 2 (5/4))
                     [RemoveMember ''A'', AddMember ''C'']))).
          loadOf (loads (projr (runCalls (Some [''A'', ''B'']) (demoConfig 3 2 (5/4))
                     [RemoveMember ''A'', AddMember ''C'']))) m) = 3"
proof -
  let ?r = "runCalls (Some [''A'', ''B'']) (demoConfig 3 2 (5/4)) [RemoveMember ''A'', AddMember ''C'']"
  let ?c = "projr ?r"
  have "case ?r of Inl e \<Rightarrow> False | Inr c \<Rightarrow> True" by code_simp
  then have h1: "?r = Inr ?c" by (rule runCalls_projr)
  have "fmdom (members ?c) = {|''B'', ''C''|}" by code_simp
  then have h2: "fmdom (members ?c) \<noteq> {||}" by simp
  have p: "partitionCount ?c = 3" by code_simp
  have r: "0 \<le> PartitionCount (demoConfig 3 2 (5/4)) \<and> PartitionCount (demoConfig 3 2 (5/4)) < 2 ^ 63"
    by (simp add: demoConfig_def)
  have pcfg: "PartitionCount (demoConfig 3 2 (5/4)) = 3" by (simp add: demoConfig_def)
  note t = every_partition_owned_and_loads_sum [OF h1 h2]
  from t p have g1: "\<exists>!m. fmlookup (partitions ?c) (int_of_uint64 2) = Some m" by simp
  from t r have "\<forall>k. (\<exists>m. fmlookup (partitions ?c) k = Some m)
                       \<longleftrightarrow> 0 \<le> k \<and> k < PartitionCount (demoConfig 3 2 (5/4))" by blast
  then have g2: "\<exists>m. fmlookup (partitions ?c) 2 = Some m"
    and g3: "\<nexists>m. fmlookup (partitions ?c) 3 = Some m" by (simp_all add: pcfg)
  from t p have g4: "(\<Sum>m\<in>fmdom' (members ?c). loadOf (loads ?c) m) = 3" by simp
  from h1 h2 p g1 g2 g3 g4 show ?thesis by blast
qed

section \<open>Adding a member that is already registered\<close>

text \<open>
  Claim C7. \<open>Add\<close> is idempotent on member names: a call of \<open>Add\<close> with a member
  whose name is registered returns at once and leaves the whole object (ring, sorted
  set, member registry, partition table, load map) as it was; in particular a second
  \<open>Add\<close> of the same member, after a first one with any outcome, changes nothing.
\<close>

theorem Add_existing_member_is_noop:
  "(fmlookup (members c) member \<noteq> None \<longrightarrow> Add c member = (None, c))
   \<and> (Add c member = (r, c') \<longrightarrow> Add c' member = (None, c'))"
proof (intro conjI impI)
  assume "fmlookup (members c) member \<noteq> None"
  then show "Add c member = (None, c)" by (simp add: Add_def)
next
  assume a: "Add c member = (r, c')"
  have "fmlookup (members c') member \<noteq> None"
  proof (cases "fmlookup (members c) member = None")
    case False
    with a show ?thesis by (auto simp: Add_def)
  next
    case True
    show ?thesis
    proof (cases "distributePartitions (add c member)")
      case (Inl e)
      with a True have "c' = add c member" by (simp add: Add_def)
      then show ?thesis by simp
    next
      case (Inr c2)
      with a True have "c' = c2" by (simp add: Add_def)
      with distributePartitions_fields [OF Inr] show ?thesis by simp
    qed
  qed
  then show "Add c' member = (None, c')" by (simp add: Add_def)
qed

theorem Add_existing_member_is_noop_witness:
  "fmlookup (members (projr (New (Some [''A'']) (demoConfig 3 2 (5/4))))) ''A'' \<noteq> None
   \<and> Add (projr (New (Some [''A'']) (demoConfig 3 2 (5/4)))) ''A''
       = (None, projr (New (Some [''A'']) (demoConfig 3 2 (5/4))))
   \<and> fst (Add (projr (New (Some [''A'']) (demoConfig 3 2 (5/4)))) ''B'') = None
   \<and> fmlookup (members (snd (Add (projr (New (Some [''A'']) (demoConfig 3 2 (5/4)))) ''B''))) ''B'' = Some ''B''
   \<and> Add (snd (Add (projr (New (Some [''A'']) (demoConfig 3 2 (5/4)))) ''B'')) ''B''
       = (None, snd (Add (projr (New (Some [''A'']) (demoConfig 3 2 (5/4)))) ''B''))"
proof -
  let ?c = "projr (New (Some [''A'']) (demoConfig 3 2 (5/4)))"
  have h1: "fmlookup (members ?c) ''A'' \<noteq> None" by code_simp
  have h2: "fst (Add ?c ''B'') = None" by code_simp
  have h3: "fmlookup (members (snd (Add ?c ''B''))) ''B'' = Some ''B''" by code_simp
  have h4: "Add ?c ''B'' = (fst (Add ?c ''B''), snd (Add ?c ''B''))" by simp
  from Add_existing_member_is_noop [of ?c "''A''"] h1
  have g1: "Add ?c ''A'' = (None, ?c)" by blast
  from Add_existing_member_is_noop [of ?c "''B''" "fst (Add ?c ''B'')" "snd (Add ?c ''B'')"] h4
  have g2: "Add (snd (Add ?c ''B'')) ''B'' = (None, snd (Add ?c ''B''))" by blast
  from h1 h2 h3 g1 g2 show ?thesis by blast
qed

section \<open>The bound of the walk over the ring\<close>

text \<open>
  Claim C5. The claim says that the capacity failure is raised only after every ring
  point has been visited and every member is at the cap. The counter of
  \<open>distributeWithLoad\<close> is incremented and compared with \<open>len(sortedSet)\<close> before the
  ring point is examined, so the walk examines at most \<open>len(sortedSet) - 1\<close> points.
  Evaluated: with members A and B, one ring point each, three partitions and load
  factor 1.25 the cap is 2, A takes two partitions and the third panics with
  "not enough room" although B, on the ring, has load 0 (the same configuration with
  two partitions leaves A at 2 and B at 0); a single member with a single ring point
  panics on the first partition although its load is 0 and the cap is 2.
\<close>

theorem walk_gives_up_one_ring_point_early:
  "(case New (Some [''A'', ''B'']) (demoConfig 3 1 (5/4)) of
      Inl e \<Rightarrow> e = NotEnoughRoom | Inr c \<Rightarrow> False)
   \<and> (case New (Some [''A'']) (demoConfig 1 1 (5/4)) of
      Inl e \<Rightarrow> e = NotEnoughRoom | Inr c \<Rightarrow> False)
   \<and> (case New (Some [''A'', ''B'']) (demoConfig 2 1 (5/4)) of
      Inl e \<Rightarrow> False
    | Inr c \<Rightarrow> AverageLoad c = Inr 2 \<and> sortedSet c = [demoHasher ''A0'', demoHasher ''B0'']
         \<and> fmlookup (ring c) (demoHasher ''B0'') = Some ''B''
         \<and> loadOf (loads c) ''A'' = 2 \<and> loadOf (loads c) ''B'' = 0)"
  by code_simp

section \<open>The value of AverageLoad\<close>





section \<open>A mutation that panics\<close>

text \<open>
  Claim C4, as stated, fails in its last part: \<open>Add\<close> has put the member into the ring,
  the sorted set and the registry before the distribution pass panics, and they stay
  changed. With one member A, three partitions, two ring points per member and load
  factor 1, adding B makes the cap 1 for two members: the pass panics with "not enough
  room", and B is registered and on the ring afterwards.
\<close>

theorem failed_Add_has_already_changed_the_registry:
  "\<not> isl (New (Some [''A'']) (demoConfig 3 2 1))
   \<and> fst (Add (projr (New (Some [''A'']) (demoConfig 3 2 1))) ''B'') = Some NotEnoughRoom
   \<and> fmlookup (members (projr (New (Some [''A'']) (demoConfig 3 2 1)))) ''B'' = None
   \<and> fmlookup (members (snd (Add (projr (New (Some [''A'']) (demoConfig 3 2 1))) ''B''))) ''B''
        = Some ''B''
   \<and> length (sortedSet (projr (New (Some [''A'']) (demoConfig 3 2 1)))) = 2
   \<and> length (sortedSet (snd (Add (projr (New (Some [''A'']) (demoConfig 3 2 1))) ''B''))) = 4
   \<and> fmlookup (ring (projr (New (Some [''A'']) (demoConfig 3 2 1)))) (demoHasher ''B0'') = None
   \<and> fmlookup (ring (snd (Add (projr (New (Some [''A'']) (demoConfig 3 2 1))) ''B'')))
        (demoHasher ''B0'') = Some ''B''"
  by code_simp

text \<open>
  Claim C4, amended. If \<open>Add\<close> or \<open>Remove\<close> panics during the distribution pass, no
  partition table and no load map is installed: the object keeps the table and the load
  map it had. The ring, the sorted set and the member registry have been changed
  before the pass and stay changed: after a failed \<open>Add\<close> the object is the result of
  \<open>add\<close>, with the member registered; after a failed \<open>Remove\<close> the member is no longer
  registered.
\<close>

theorem failed_mutation_keeps_table_and_loads:
  "(Add c member = (Some e, c') \<longrightarrow>
      partitions c' = partitions c \<and> loads c' = loads c
      \<and> c' = add c member \<and> fmlookup (members c') member = Some member)
   \<and> (Remove c name = (Some e, c') \<longrightarrow>
      partitions c' = partitions c \<and> loads c' = loads c
      \<and> fmlookup (members c) name \<noteq> None \<and> members c' = fmdrop name (members c))"
proof -
  have A: "partitions c' = partitions c \<and> loads c' = loads c
      \<and> c' = add c member \<and> fmlookup (members c') member = Some member"
    if a: "Add c member = (Some e, c')"
  proof -
    from a have "c' = add c member"
      by (auto simp: Add_def Let_def split: if_splits sum.splits)
    then show ?thesis by simp
  qed
  have R: "partitions c' = partitions c \<and> loads c' = loads c
      \<and> fmlookup (members c) name \<noteq> None \<and> members c' = fmdrop name (members c)"
    if a: "Remove c name = (Some e, c')"
  proof -
    let ?c1 = "fold (removeReplica name) [0..<nat (ReplicationFactor (config c))] c"
    from a have n: "fmlookup (members c) name \<noteq> None"
      by (auto simp: Remove_def split: if_splits)
    with a have "c' = ?c1\<lparr>members := fmdrop name (members ?c1)\<rparr>"
      by (auto simp: Remove_def Let_def split: if_splits sum.splits)
    with n show ?thesis by (simp add: removeFold_fields)
  qed
  from A R show ?thesis by blast
qed

theorem failed_mutation_keeps_table_and_loads_witness:
  "Add (projr (New (Some [''A'']) (demoConfig 3 2 1))) ''B''
     = (Some NotEnoughRoom, snd (Add (projr (New (Some [''A'']) (demoConfig 3 2 1))) ''B''))
   \<and> partitions (snd (Add (projr (New (Some [''A'']) (demoConfig 3 2 1))) ''B''))
       = partitions (projr (New (Some [''A'']) (demoConfig 3 2 1)))
   \<and> loads (snd (Add (projr (New (Some [''A'']) (demoConfig 3 2 1))) ''B''))
       = loads (projr (New (Some [''A'']) (demoConfig 3 2 1)))
   \<and> Remove (projr (New (Some [''A'', ''B'']) (demoConfig 2 1 (5/4)))) ''B''
     = (Some NotEnoughRoom, snd (Remove (projr (New (Some [''A'', ''B'']) (demoConfig 2 1 (5/4)))) ''B''))
   \<and> partitions (snd (Remove (projr (New (Some [''A'', ''B'']) (demoConfig 2 1 (5/4)))) ''B''))
       = partitions (projr (New (Some [''A'', ''B'']) (demoConfig 2 1 (5/4))))
   \<and> loads (snd (Remove (projr (New (Some [''A'', ''B'']) (demoConfig 2 1 (5/4)))) ''B''))
       = loads (projr (New (Some [''A'', ''B'']) (demoConfig 2 1 (5/4))))"
proof -
  let ?c = "projr (New (Some [''A'']) (demoConfig 3 2 1))"
  let ?d = "projr (New (Some [''A'', ''B'']) (demoConfig 2 1 (5/4)))"
  have "fst (Add ?c ''B'') = Some NotEnoughRoom" by code_simp
  then have h1: "Add ?c ''B'' = (Some NotEnoughRoom, snd (Add ?c ''B''))"
    by (metis prod.collapse)
  have "fst (Remove ?d ''B'') = Some NotEnoughRoom" by code_simp
  then have h2: "Remove ?d ''B'' = (Some NotEnoughRoom, snd (Remove ?d ''B''))"
    by (metis prod.collapse)
  from failed_mutation_keeps_table_and_loads [of ?c "''B''" NotEnoughRoom "snd (Add ?c ''B'')"] h1
  have g1: "partitions (snd (Add ?c ''B'')) = partitions ?c \<and> loads (snd (Add ?c ''B'')) = loads ?c"
    by blast
  from failed_mutation_keeps_table_and_loads
         [of ?d "''B''" NotEnoughRoom "snd (Remove ?d ''B'')" "''B''"] h2
  have g2: "partitions (snd (Remove ?d ''B'')) = partitions ?d
            \<and> loads (snd (Remove ?d ''B'')) = loads ?d"
    by blast
  from h1 h2 g1 g2 show ?thesis by blast
qed

section \<open>Removing an unknown member, removing the last member\<close>

text \<open>
  Claim C8, as stated, fails for \<open>LocateKey\<close> when the partition count is 0 (the value
  of a \<open>Config\<close> whose \<open>PartitionCount\<close> is not set): \<open>FindPartitionID\<close> computes
  \<open>hkey % partitionCount\<close> and panics with a division by zero. With one member and no
  partitions the constructor returns, \<open>Remove\<close> of the member returns, and \<open>LocateKey\<close>
  panics instead of reporting no owner.
\<close>

theorem LocateKey_panics_for_zero_partitions:
  "\<not> isl (New (Some [''A'']) (demoConfig 0 1 (5/4)))
   \<and> fmdom (members (projr (New (Some [''A'']) (demoConfig 0 1 (5/4))))) = {|''A''|}
   \<and> fst (Remove (projr (New (Some [''A'']) (demoConfig 0 1 (5/4)))) ''A'') = None
   \<and> fmdom (members (snd (Remove (projr (New (Some [''A'']) (demoConfig 0 1 (5/4)))) ''A''))) = {||}
   \<and> LocateKey (snd (Remove (projr (New (Some [''A'']) (demoConfig 0 1 (5/4)))) ''A'')) ''key''
        = Inl DivideByZero"
  by code_simp

text \<open>
  Claim C8, amended. \<open>Remove\<close> with a name that is not registered changes nothing.
  \<open>Remove\<close> of the only registered member returns without a distribution pass, with an
  empty registry and an empty partition table (the load map is left as it was);
  afterwards \<open>GetPartitionOwner\<close> reports no owner for every partition id, and
  \<open>LocateKey\<close> reports no owner for every key provided the partition count is not 0
  (with partition count 0 it panics with a division by zero).
\<close>

theorem Remove_unknown_and_Remove_last:
  "(fmlookup (members c) name = None \<longrightarrow> Remove c name = (None, c))
   \<and> (fmdom (members c) = {|name|} \<longrightarrow>
        (\<exists>c'. Remove c name = (None, c')
           \<and> partitions c' = fmempty \<and> members c' = fmempty \<and> loads c' = loads c
           \<and> (\<forall>partID. GetPartitionOwner c' partID = None)
           \<and> (\<forall>key. LocateKey c' key
                  = (if partitionCount c = 0 then Inl DivideByZero else Inr None))))"
proof -
  have A: "Remove c name = (None, c)" if "fmlookup (members c) name = None"
    using that by (simp add: Remove_def)
  have B: "\<exists>c'. Remove c name = (None, c')
           \<and> partitions c' = fmempty \<and> members c' = fmempty \<and> loads c' = loads c
           \<and> (\<forall>partID. GetPartitionOwner c' partID = None)
           \<and> (\<forall>key. LocateKey c' key
                  = (if partitionCount c = 0 then Inl DivideByZero else Inr None))"
    if d: "fmdom (members c) = {|name|}"
  proof -
    define c2 where "c2 = (fold (removeReplica name) [0..<nat (ReplicationFactor (config c))] c)
        \<lparr>members := fmdrop name (members
            (fold (removeReplica name) [0..<nat (ReplicationFactor (config c))] c))\<rparr>"
    note f = removeFold_fields [of name "[0..<nat (ReplicationFactor (config c))]" c]
    from d have "name |\<in>| fmdom (members c)" by simp
    then have n: "fmlookup (members c) name \<noteq> None" by (simp add: fmlookup_dom_iff)
    from d have "fmdom (fmdrop name (members c)) = {||}" by auto
    then have e: "fmdrop name (members c) = fmempty"
      by (metis fmrestrict_fset_dom fmrestrict_fset_null)
    from f have "members c2 = fmdrop name (members c)" by (simp add: c2_def)
    with e have mc2: "members c2 = fmempty" by simp
    then have z: "fcard (fmdom (members c2)) = 0" by simp
    from f have fc2: "loads c2 = loads c" "partitionCount c2 = partitionCount c"
      by (simp_all add: c2_def)
    from n have "Remove c name =
        (if fcard (fmdom (members c2)) = 0 then (None, c2\<lparr>partitions := fmempty\<rparr>)
         else (case distributePartitions c2 of Inl e \<Rightarrow> (Some e, c2) | Inr c3 \<Rightarrow> (None, c3)))"
      unfolding Remove_def Let_def c2_def by (simp only: if_False)
    with z have r: "Remove c name = (None, c2\<lparr>partitions := fmempty\<rparr>)"
      by (simp only: refl if_True)
    have "partitions (c2\<lparr>partitions := fmempty\<rparr>) = fmempty" by simp
    moreover have "members (c2\<lparr>partitions := fmempty\<rparr>) = fmempty" using mc2 by simp
    moreover have "loads (c2\<lparr>partitions := fmempty\<rparr>) = loads c" using fc2 by simp
    moreover have "\<forall>partID. GetPartitionOwner (c2\<lparr>partitions := fmempty\<rparr>) partID = None"
      by (simp add: GetPartitionOwner_def)
    moreover have "\<forall>key. LocateKey (c2\<lparr>partitions := fmempty\<rparr>) key
                  = (if partitionCount c = 0 then Inl DivideByZero else Inr None)"
      using fc2 by (simp add: LocateKey_def FindPartitionID_def GetPartitionOwner_def)
    ultimately show ?thesis using r by blast
  qed
  from A B show ?thesis by blast
qed

theorem Remove_unknown_and_Remove_last_witness:
  "fmlookup (members (projr (New (Some [''A'']) (demoConfig 3 2 (5/4))))) ''B'' = None
   \<and> Remove (projr (New (Some [''A'']) (demoConfig 3 2 (5/4)))) ''B''
       = (None, projr (New (Some [''A'']) (demoConfig 3 2 (5/4))))
   \<and> fmdom (members (projr (New (Some [''A'']) (demoConfig 3 2 (5/4))))) = {|''A''|}
   \<and> partitionCount (projr (New (Some [''A'']) (demoConfig 3 2 (5/4)))) = 3
   \<and> GetPartitionOwner (projr (New (Some [''A'']) (demoConfig 3 2 (5/4)))) 0 = Some ''A''
   \<and> (\<exists>c'. Remove (projr (New (Some [''A'']) (demoConfig 3 2 (5/4)))) ''A'' = (None, c')
         \<and> partitions c' = fmempty \<and> GetPartitionOwner c' 0 = None
         \<and> LocateKey c' ''key'' = Inr None)"
proof -
  let ?c = "projr (New (Some [''A'']) (demoConfig 3 2 (5/4)))"
  have h1: "fmlookup (members ?c) ''B'' = None" by code_simp
  have h2: "fmdom (members ?c) = {|''A''|}" by code_simp
  have p: "partitionCount ?c = 3" by code_simp
  have o: "GetPartitionOwner ?c 0 = Some ''A''" by code_simp
  from Remove_unknown_and_Remove_last [of ?c "''B''"] h1
  have g1: "Remove ?c ''B'' = (None, ?c)" by blast
  from Remove_unknown_and_Remove_last [of ?c "''A''"] h2 obtain c' where
    r: "Remove ?c ''A'' = (None, c')" and e: "partitions c' = fmempty"
    and g: "\<forall>partID. GetPartitionOwner c' partID = None"
    and l: "\<forall>key. LocateKey c' key = (if partitionCount ?c = 0 then Inl DivideByZero else Inr None)"
    by blast
  from l p have "LocateKey c' ''key'' = Inr None" by simp
  with r e g have "\<exists>c'. Remove ?c ''A'' = (None, c') \<and> partitions c' = fmempty
      \<and> GetPartitionOwner c' 0 = None \<and> LocateKey c' ''key'' = Inr None" by blast
  with h1 g1 h2 p o show ?thesis by blast
qed

section \<open>An empty member set\<close>

lemma distributeLoop_no_members:
  assumes "fmdom (members c) = {||}" and "ks \<noteq> []"
  shows "distributeLoop c ks t = Inl DivideByZero"
proof -
  from assms(2) obtain k rest where ks: "ks = k # rest" by (cases ks) auto
  from assms(1) have "AverageLoad c = Inl DivideByZero" by (simp add: AverageLoad_def)
  then have "distributeWithLoad c partID idx t = Inl DivideByZero" for partID idx
    by (simp add: distributeWithLoad_def)
  then show ?thesis by (simp add: ks Let_def)
qed

text \<open>
  Claim C10, as stated, fails for a partition count of 0: the loop of
  \<open>distributePartitions\<close> has no iteration, \<open>AverageLoad\<close> is never called, and \<open>New\<close>
  with a non-nil empty slice returns an (empty) instance.
\<close>

theorem New_with_empty_slice_and_no_partitions_returns:
  "\<not> isl (New (Some []) (demoConfig 0 1 (5/4)))
   \<and> fmdom (members (projr (New (Some []) (demoConfig 0 1 (5/4))))) = {||}
   \<and> AverageLoad (projr (New (Some []) (demoConfig 0 1 (5/4)))) = Inl DivideByZero"
  by code_simp

text \<open>
  Claim C10, amended. With an empty member set \<open>AverageLoad\<close> panics with a division by
  zero. \<open>New\<close> with a nil hasher panics. With a hasher, \<open>New\<close> with a non-nil empty
  slice panics with the division by zero in the first iteration of the initial
  distribution pass when the partition count is not 0, and returns an empty instance
  when it is 0; \<open>New\<close> with a nil slice runs no pass and returns an empty instance.
\<close>

theorem AverageLoad_and_New_without_members:
  "(fmdom (members c) = {||} \<longrightarrow> AverageLoad c = Inl DivideByZero)
   \<and> (Hasher cfg = None \<longrightarrow> New ms cfg = Inl HasherNil)
   \<and> (Hasher cfg \<noteq> None \<and> uint64_of_int (PartitionCount cfg) \<noteq> 0 \<longrightarrow>
        New (Some []) cfg = Inl DivideByZero)
   \<and> (Hasher cfg \<noteq> None \<and> uint64_of_int (PartitionCount cfg) = 0 \<longrightarrow>
        (\<exists>c'. New (Some []) cfg = Inr c' \<and> members c' = fmempty \<and> partitions c' = fmempty))
   \<and> (Hasher cfg \<noteq> None \<longrightarrow>
        (\<exists>c'. New None cfg = Inr c' \<and> members c' = fmempty \<and> partitions c' = fmempty
              \<and> loads c' = fmempty \<and> ring c' = fmempty \<and> sortedSet c' = []))"
proof -
  have A: "AverageLoad c = Inl DivideByZero" if "fmdom (members c) = {||}"
    using that by (simp add: AverageLoad_def)
  have B: "New ms cfg = Inl HasherNil" if "Hasher cfg = None"
    using that by (simp add: New_def)
  have C: "New (Some []) cfg = Inl DivideByZero"
    if "Hasher cfg \<noteq> None \<and> uint64_of_int (PartitionCount cfg) \<noteq> 0"
  proof -
    from that obtain h where h: "Hasher cfg = Some h" by auto
    define c0 where "c0 = \<lparr>config = cfg, hasher = h, sortedSet = [],
                     partitionCount = uint64_of_int (PartitionCount cfg),
                     loads = fmempty, members = fmempty,
                     partitions = fmempty, ring = fmempty\<rparr>"
    have "fmdom (members c0) = {||}" by (simp add: c0_def)
    moreover from that have "[0..<partitionCount c0] \<noteq> []" by (simp add: c0_def)
    ultimately have "distributeLoop c0 [0..<partitionCount c0] (fmempty, fmempty) = Inl DivideByZero"
      by (rule distributeLoop_no_members)
    then have "distributePartitions c0 = Inl DivideByZero" by (simp add: distributePartitions_def)
    with h show ?thesis by (simp add: New_def c0_def)
  qed
  have D: "\<exists>c'. New (Some []) cfg = Inr c' \<and> members c' = fmempty \<and> partitions c' = fmempty"
    if "Hasher cfg \<noteq> None \<and> uint64_of_int (PartitionCount cfg) = 0"
  proof -
    from that obtain h where h: "Hasher cfg = Some h" by auto
    with that show ?thesis by (simp add: New_def distributePartitions_def)
  qed
  have E: "\<exists>c'. New None cfg = Inr c' \<and> members c' = fmempty \<and> partitions c' = fmempty
              \<and> loads c' = fmempty \<and> ring c' = fmempty \<and> sortedSet c' = []"
    if "Hasher cfg \<noteq> None"
  proof -
    from that obtain h where h: "Hasher cfg = Some h" by auto
    then show ?thesis by (simp add: New_def)
  qed
  from A B C D E show ?thesis by blast
qed

theorem AverageLoad_and_New_without_members_witness:
  "fmdom (members (projr (New None (demoConfig 3 2 (5/4))))) = {||}
   \<and> AverageLoad (projr (New None (demoConfig 3 2 (5/4)))) = Inl DivideByZero
   \<and> New None (demoConfig 3 2 (5/4)\<lparr>Hasher := None\<rparr>) = Inl HasherNil
   \<and> New (Some []) (demoConfig 3 2 (5/4)) = Inl DivideByZero
   \<and> (\<exists>c'. New (Some []) (demoConfig 0 2 (5/4)) = Inr c' \<and> members c' = fmempty)
   \<and> (\<exists>c'. New None (demoConfig 3 2 (5/4)) = Inr c' \<and> members c' = fmempty
          \<and> partitions c' = fmempty)"
proof -
  let ?c = "projr (New None (demoConfig 3 2 (5/4)))"
  have h1: "fmdom (members ?c) = {||}" by code_simp
  have h2: "Hasher (demoConfig 3 2 (5/4)\<lparr>Hasher := None\<rparr>) = None" by simp
  have h3: "Hasher (demoConfig 3 2 (5/4)) \<noteq> None \<and> uint64_of_int (PartitionCount (demoConfig 3 2 (5/4))) \<noteq> 0"
    by (simp add: demoConfig_def uint64_of_int_def)
  have h4: "Hasher (demoConfig 0 2 (5/4)) \<noteq> None \<and> uint64_of_int (PartitionCount (demoConfig 0 2 (5/4))) = 0"
    by (simp add: demoConfig_def uint64_of_int_def)
  from AverageLoad_and_New_without_members [of ?c "demoConfig 3 2 (5/4)"] h1
  have g1: "AverageLoad ?c = Inl DivideByZero" by blast
  from AverageLoad_and_New_without_members [of ?c "demoConfig 3 2 (5/4)\<lparr>Hasher := None\<rparr>" None] h2
  have g2: "New None (demoConfig 3 2 (5/4)\<lparr>Hasher := None\<rparr>) = Inl HasherNil" by blast
  from AverageLoad_and_New_without_members [of ?c "demoConfig 3 2 (5/4)"] h3
  have g3: "New (Some []) (demoConfig 3 2 (5/4)) = Inl DivideByZero"
    and g5: "\<exists>c'. New None (demoConfig 3 2 (5/4)) = Inr c' \<and> members c' = fmempty
          \<and> partitions c' = fmempty" by blast+
  from AverageLoad_and_New_without_members [of ?c "demoConfig 0 2 (5/4)"] h4
  have g4: "\<exists>c'. New (Some []) (demoConfig 0 2 (5/4)) = Inr c' \<and> members c' = fmempty" by blast
  from h1 g1 g2 g3 g4 g5 show ?thesis by blast
qed

section \<open>Determinism of the construction\<close>

text \<open>
  The functions that build the partition table (\<open>New\<close>, \<open>add\<close>, \<open>distributePartitions\<close>,
  \<open>distributeWithLoad\<close>) run over the slice of members, the replica indices and the
  partition ids in increasing order; none of them ranges over a Go map. A pass reads the
  ring, the sorted point set, the registry, the partition count, the configuration and
  the hasher of the instance, and neither the table nor the loads installed before.
\<close>

lemma walk_cong:
  assumes "ring c' = ring c" and "sortedSet c' = sortedSet c"
  shows "walk c' partID avg count idx t = walk c partID avg count idx t"
  using assms
proof (induction c partID avg count idx t rule: walk.induct)
  case (1 c partID avgLoad count idx parts lds)
  have L: "walk c' partID avgLoad count idx (parts, lds) =
     (if count + 1 \<ge> length (sortedSet c') then Inl NotEnoughRoom
      else if idx \<ge> length (sortedSet c') then Inl IndexOutOfRange
      else
        (case fmlookup (ring c') (sortedSet c' ! idx) of
           None \<Rightarrow> Inl NilDereference
         | Some member \<Rightarrow>
             (let load = (case fmlookup lds member of None \<Rightarrow> 0 | Some l \<Rightarrow> l) in
              if int load + 1 \<le> avgLoad
              then Inr (fmupd partID member parts, fmupd member (load + 1) lds)
              else walk c' partID avgLoad (count + 1)
                     (if idx + 1 \<ge> length (sortedSet c') then 0 else idx + 1) (parts, lds))))"
    by (rule walk.simps)
  have R: "walk c partID avgLoad count idx (parts, lds) =
     (if count + 1 \<ge> length (sortedSet c) then Inl NotEnoughRoom
      else if idx \<ge> length (sortedSet c) then Inl IndexOutOfRange
      else
        (case fmlookup (ring c) (sortedSet c ! idx) of
           None \<Rightarrow> Inl NilDereference
         | Some member \<Rightarrow>
             (let load = (case fmlookup lds member of None \<Rightarrow> 0 | Some l \<Rightarrow> l) in
              if int load + 1 \<le> avgLoad
              then Inr (fmupd partID member parts, fmupd member (load + 1) lds)
              else walk c partID avgLoad (count + 1)
                     (if idx + 1 \<ge> length (sortedSet c) then 0 else idx + 1) (parts, lds))))"
    by (rule walk.simps)
  show ?case
    unfolding L R "1.prems"
    using "1.IH" "1.prems" by (auto simp: Let_def split: option.splits)
qed

lemma distributeWithLoad_cong:
  assumes "ring c' = ring c" and "sortedSet c' = sortedSet c" and "members c' = members c"
    and "partitionCount c' = partitionCount c" and "config c' = config c"
  shows "distributeWithLoad c' partID idx t = distributeWithLoad c partID idx t"
  by (simp add: distributeWithLoad_def AverageLoad_cong [OF assms(3,4,5)]
        walk_cong [OF assms(1,2)] split: sum.split)

lemma distributeLoop_cong:
  assumes "ring c' = ring c" and "sortedSet c' = sortedSet c" and "members c' = members c"
    and "partitionCount c' = partitionCount c" and "config c' = config c"
    and "hasher c' = hasher c"
  shows "distributeLoop c' ks t = distributeLoop c ks t"
proof (induction ks arbitrary: t)
  case Nil
  show ?case by simp
next
  case (Cons k ks)
  show ?case
    by (simp add: Let_def distributeWithLoad_cong [OF assms(1-5)] assms(2,6) Cons
          split: sum.split)
qed

lemma distributePartitions_installed:
  "distributePartitions (c\<lparr>loads := l, partitions := p\<rparr>) = distributePartitions c"
proof -
  have "distributeLoop (c\<lparr>loads := l, partitions := p\<rparr>) ks t = distributeLoop c ks t" for ks t
    by (rule distributeLoop_cong) simp_all
  then show ?thesis by (simp add: distributePartitions_def split: sum.split prod.split)
qed

lemma addReplica_installed:
  "addReplica m i (c\<lparr>loads := l, partitions := p\<rparr>)
     = (addReplica m i c)\<lparr>loads := l, partitions := p\<rparr>"
  by (simp add: addReplica_def Let_def)

lemma addFold_installed:
  "fold (addReplica m) is (c\<lparr>loads := l, partitions := p\<rparr>)
     = (fold (addReplica m) is c)\<lparr>loads := l, partitions := p\<rparr>"
  by (induction "is" arbitrary: c) (simp_all add: addReplica_installed)

lemma add_installed:
  "add (c\<lparr>loads := l, partitions := p\<rparr>) m = (add c m)\<lparr>loads := l, partitions := p\<rparr>"
  by (simp add: add_def Let_def addFold_installed)

lemma addAll_members:
  "fmlookup (members (fold (\<lambda>member c. add c member) ms c)) m
     = (if m \<in> set ms then Some m else fmlookup (members c) m)"
  by (induction ms arbitrary: c) auto

lemma New_then_Add:
  assumes n: "New (Some ms) cfg = Inr c" and m: "m \<notin> set ms"
  shows "Add c m = (case New (Some (ms @ [m])) cfg of
                      Inl e \<Rightarrow> (Some e, add c m)
                    | Inr c' \<Rightarrow> (None, c'))"
proof -
  from n obtain h where h: "Hasher cfg = Some h" by (auto simp: New_def split: option.splits)
  define c0 where "c0 = \<lparr>config = cfg, hasher = h, sortedSet = [],
                     partitionCount = uint64_of_int (PartitionCount cfg),
                     loads = fmempty, members = fmempty,
                     partitions = fmempty, ring = fmempty\<rparr>"
  define c1 where "c1 = fold (\<lambda>member c. add c member) ms c0"
  from n h have d: "distributePartitions c1 = Inr c"
    by (simp add: New_def c0_def c1_def)
  then obtain parts lds where c: "c = c1\<lparr>loads := lds, partitions := parts\<rparr>"
    by (auto simp: distributePartitions_def split: sum.splits prod.splits)
  have "fmlookup (members c1) m = None"
    unfolding c1_def using m by (simp add: addAll_members c0_def)
  then have none: "fmlookup (members c) m = None" by (simp add: c)
  have "distributePartitions (add c m) = distributePartitions (add c1 m)"
    unfolding c add_installed by (rule distributePartitions_installed)
  moreover from h have "New (Some (ms @ [m])) cfg = distributePartitions (add c1 m)"
    by (simp add: New_def c0_def c1_def)
  ultimately show ?thesis using none by (simp add: Add_def Let_def split: sum.split)
qed

lemma New_nil_then_Add:
  assumes n: "New None cfg = Inr c"
  shows "Add c m = (case New (Some [m]) cfg of
                      Inl e \<Rightarrow> (Some e, add c m)
                    | Inr c' \<Rightarrow> (None, c'))"
proof -
  from n obtain h where h: "Hasher cfg = Some h" by (auto simp: New_def split: option.splits)
  with n have c: "c = \<lparr>config = cfg, hasher = h, sortedSet = [],
                     partitionCount = uint64_of_int (PartitionCount cfg),
                     loads = fmempty, members = fmempty,
                     partitions = fmempty, ring = fmempty\<rparr>"
    by (simp add: New_def)
  then have none: "fmlookup (members c) m = None" by simp
  from h have "New (Some [m]) cfg = distributePartitions (add c m)"
    by (simp add: New_def c)
  with none show ?thesis by (simp add: Add_def Let_def split: sum.split)
qed

lemma New_empty_slice:
  assumes "New (Some []) cfg = Inr c"
  shows "New None cfg = Inr c"
proof -
  from assms obtain h where h: "Hasher cfg = Some h" by (auto simp: New_def split: option.splits)
  define c0 where "c0 = \<lparr>config = cfg, hasher = h, sortedSet = [],
                     partitionCount = uint64_of_int (PartitionCount cfg),
                     loads = fmempty, members = fmempty,
                     partitions = fmempty, ring = fmempty\<rparr>"
  from assms h have d: "distributePartitions c0 = Inr c" by (simp add: New_def c0_def)
  have e: "fmdom (members c0) = {||}" by (simp add: c0_def)
  have "[0..<partitionCount c0] = []"
  proof (rule ccontr)
    assume "[0..<partitionCount c0] \<noteq> []"
    from distributeLoop_no_members [OF e this, of "(fmempty, fmempty)"] d
    show False by (simp add: distributePartitions_def)
  qed
  with d have "c = c0\<lparr>loads := fmempty, partitions := fmempty\<rparr>"
    by (simp add: distributePartitions_def)
  then have "c = c0" by (simp add: c0_def)
  with h show ?thesis by (simp add: New_def c0_def)
qed

lemma Adds_after_New:
  assumes "New (Some ms) cfg = Inr c0" and "distinct (ms @ adds)"
    and "performAll c0 (map AddMember adds) = Inr c"
  shows "New (Some (ms @ adds)) cfg = Inr c"
  using assms
proof (induction adds arbitrary: ms c0)
  case Nil
  then show ?case by simp
next
  case (Cons a adds)
  from Cons.prems(2) have a: "a \<notin> set ms" and d: "distinct ((ms @ [a]) @ adds)" by auto
  from Cons.prems(3) New_then_Add [OF Cons.prems(1) a]
  obtain c' where n: "New (Some (ms @ [a])) cfg = Inr c'"
    and p: "performAll c' (map AddMember adds) = Inr c"
    by (auto split: sum.splits)
  from Cons.IH [OF n d p] show ?case by simp
qed

lemma Adds_from_the_start:
  assumes r: "runCalls ms cfg (map AddMember adds) = Inr c"
    and d: "distinct ((case ms of None \<Rightarrow> [] | Some l \<Rightarrow> l) @ adds)"
  shows "(if (case ms of None \<Rightarrow> [] | Some l \<Rightarrow> l) @ adds = [] then New None cfg
          else New (Some ((case ms of None \<Rightarrow> [] | Some l \<Rightarrow> l) @ adds)) cfg) = Inr c"
proof -
  from r obtain c0 where n: "New ms cfg = Inr c0"
    and p: "performAll c0 (map AddMember adds) = Inr c"
    by (auto simp: runCalls_def split: sum.splits)
  show ?thesis
  proof (cases ms)
    case (Some l)
    from n d p have f: "New (Some (l @ adds)) cfg = Inr c"
      unfolding Some by (simp add: Adds_after_New)
    show ?thesis
    proof (cases "l @ adds = []")
      case True
      with f have "New None cfg = Inr c" by (simp add: New_empty_slice)
      with True Some show ?thesis by simp
    next
      case False
      with f Some show ?thesis by auto
    qed
  next
    case None
    show ?thesis
    proof (cases adds)
      case Nil
      with n p None show ?thesis by simp
    next
      case (Cons a rest)
      from p New_nil_then_Add [OF n [unfolded None], of a]
      obtain c' where n': "New (Some [a]) cfg = Inr c'"
        and p': "performAll c' (map AddMember rest) = Inr c"
        unfolding Cons by (auto split: sum.splits)
      from d have "distinct ([a] @ rest)" by (simp add: None Cons)
      from Adds_after_New [OF n' this p'] None Cons show ?thesis by simp
    qed
  qed
qed

text \<open>
  A name that occurs twice in the slice given to \<open>New\<close> has its replicas appended to the
  sorted point set twice; \<open>Add\<close> with a registered name does nothing.
\<close>

lemma New_keeps_the_points_of_a_repeated_name:
  "\<not> isl (New (Some [''A'', ''A'']) (demoConfig 3 2 (5/4)))
   \<and> length (sortedSet (projr (New (Some [''A'', ''A'']) (demoConfig 3 2 (5/4))))) = 4
   \<and> \<not> isl (runCalls (Some [''A'']) (demoConfig 3 2 (5/4)) [AddMember ''A''])
   \<and> length (sortedSet (projr (runCalls (Some [''A'']) (demoConfig 3 2 (5/4)) [AddMember ''A'']))) = 2"
  by code_simp

text \<open>
  Claim C9. Two instances built with configurations that have the same partition
  count, replication factor, load factor and hasher, and with the same members added in
  the same order, have the same partition table: every partition id has the same owner
  in both (and the load maps, rings, sorted point sets and registries are the same). The
  members are the initial members of \<open>New\<close> followed by those of the calls of \<open>Add\<close>; the
  two instances may split that sequence differently between \<open>New\<close> (with a slice, or with
  \<open>nil\<close>) and \<open>Add\<close>, if no name is repeated in it.
\<close>

theorem construction_is_deterministic:
  assumes "Hasher cfg1 = Hasher cfg2"
    and "PartitionCount cfg1 = PartitionCount cfg2"
    and "ReplicationFactor cfg1 = ReplicationFactor cfg2"
    and "LoadFactor cfg1 = LoadFactor cfg2"
    and "(case ms1 of None \<Rightarrow> [] | Some l \<Rightarrow> l) @ adds1
           = (case ms2 of None \<Rightarrow> [] | Some l \<Rightarrow> l) @ adds2"
    and "distinct ((case ms1 of None \<Rightarrow> [] | Some l \<Rightarrow> l) @ adds1) \<or> ms1 = ms2"
    and "runCalls ms1 cfg1 (map AddMember adds1) = Inr c1"
    and "runCalls ms2 cfg2 (map AddMember adds2) = Inr c2"
  shows "partitions c1 = partitions c2
         \<and> (\<forall>partID. GetPartitionOwner c1 partID = GetPartitionOwner c2 partID)
         \<and> loads c1 = loads c2 \<and> sortedSet c1 = sortedSet c2 \<and> ring c1 = ring c2
         \<and> members c1 = members c2"
proof -
  from assms(1-4) have cfg: "cfg1 = cfg2" by (rule Config.equality) simp
  have "c1 = c2"
  proof (cases "ms1 = ms2")
    case True
    with assms(5) have "adds1 = adds2" by simp
    with True cfg assms(7,8) show ?thesis by simp
  next
    case False
    with assms(6) have d1: "distinct ((case ms1 of None \<Rightarrow> [] | Some l \<Rightarrow> l) @ adds1)"
      by simp
    with assms(5) have d2: "distinct ((case ms2 of None \<Rightarrow> [] | Some l \<Rightarrow> l) @ adds2)"
      by simp
    from Adds_from_the_start [OF assms(7) d1] Adds_from_the_start [OF assms(8) d2]
    have "Inr c1 = (Inr c2 :: panic + Consistent)"
      unfolding cfg assms(5) by simp
    then show ?thesis by simp
  qed
  then show ?thesis by simp
qed

theorem construction_is_deterministic_witness:
  "runCalls (Some [''A'', ''B'']) (demoConfig 3 2 (5/4)) (map AddMember [''C''])
     = Inr (projr (runCalls (Some [''A'', ''B'']) (demoConfig 3 2 (5/4)) (map AddMember [''C''])))
   \<and> runCalls None
        \<lparr>Hasher = Some demoHasher, PartitionCount = 3, ReplicationFactor = 2, LoadFactor = 5/4\<rparr>
        (map AddMember [''A'', ''B'', ''C''])
     = Inr (projr (runCalls None
        \<lparr>Hasher = Some demoHasher, PartitionCount = 3, ReplicationFactor = 2, LoadFactor = 5/4\<rparr>
        (map AddMember [''A'', ''B'', ''C''])))
   \<and> partitions (projr (runCalls (Some [''A'', ''B'']) (demoConfig 3 2 (5/4)) (map AddMember [''C''])))
     = partitions (projr (runCalls None
        \<lparr>Hasher = Some demoHasher, PartitionCount = 3, ReplicationFactor = 2, LoadFactor = 5/4\<rparr>
        (map AddMember [''A'', ''B'', ''C''])))
   \<and> GetPartitionOwner (projr (runCalls (Some [''A'', ''B'']) (demoConfig 3 2 (5/4))
                                 (map AddMember [''C'']))) 2
     = Some ''B''
   \<and> GetPartitionOwner (projr (runCalls None
        \<lparr>Hasher = Some demoHasher, PartitionCount = 3, ReplicationFactor = 2, LoadFactor = 5/4\<rparr>
        (map AddMember [''A'', ''B'', ''C'']))) 2
     = Some ''B''"
proof -
  let ?cfg2 = "\<lparr>Hasher = Some demoHasher, PartitionCount = 3, ReplicationFactor = 2, LoadFactor = 5/4\<rparr>"
  let ?r1 = "runCalls (Some [''A'', ''B'']) (demoConfig 3 2 (5/4)) (map AddMember [''C''])"
  let ?r2 = "runCalls None ?cfg2 (map AddMember [''A'', ''B'', ''C''])"
  have "case ?r1 of Inl e \<Rightarrow> False | Inr c \<Rightarrow> True" by code_simp
  then have h1: "?r1 = Inr (projr ?r1)" by (rule runCalls_projr)
  have "case ?r2 of Inl e \<Rightarrow> False | Inr c \<Rightarrow> True" by code_simp
  then have h2: "?r2 = Inr (projr ?r2)" by (rule runCalls_projr)
  have o: "GetPartitionOwner (projr ?r1) 2 = Some ''B''" by code_simp
  have f: "Hasher (demoConfig 3 2 (5/4)) = Hasher ?cfg2"
    "PartitionCount (demoConfig 3 2 (5/4)) = PartitionCount ?cfg2"
    "ReplicationFactor (demoConfig 3 2 (5/4)) = ReplicationFactor ?cfg2"
    "LoadFactor (demoConfig 3 2 (5/4)) = LoadFactor ?cfg2"
    by (simp_all add: demoConfig_def)
  have l: "(case Some [''A'', ''B''] of None \<Rightarrow> [] | Some l \<Rightarrow> l) @ [''C'']
             = (case None of None \<Rightarrow> [] | Some l \<Rightarrow> l) @ [''A'', ''B'', ''C'']"
    by simp
  have d: "distinct ((case Some [''A'', ''B''] of None \<Rightarrow> [] | Some l \<Rightarrow> l) @ [''C''])
           \<or> Some [''A'', ''B''] = None"
    by simp
  note t = construction_is_deterministic [OF f l d h1 h2]
  from t have p: "partitions (projr ?r1) = partitions (projr ?r2)" by blast
  from t have "GetPartitionOwner (projr ?r1) 2 = GetPartitionOwner (projr ?r2) 2" by blast
  with o have o2: "GetPartitionOwner (projr ?r2) 2 = Some ''B''" by simp
  from h1 h2 p o o2 show ?thesis by blast
qed

section \<open>Backups of a partition\<close>

lemma collectKeys_Some:
  "collectKeys c (Some ownerName) es (ownerKey, keys, kmems) =
     Inr (if ownerName \<in> fst ` set es then hasher c ownerName else ownerKey,
          keys @ map (\<lambda>e. hasher c (fst e)) es,
          fold (\<lambda>e. fmupd (hasher c (fst e)) (snd e)) es kmems)"
proof (induction es arbitrary: ownerKey keys kmems)
  case Nil
  then show ?case by simp
next
  case (Cons e es)
  obtain name member where e: "e = (name, member)" by (cases e)
  show ?case by (auto simp: e Cons Let_def)
qed

lemma kmems_other:
  "k \<notin> (\<lambda>e. h (fst e)) ` set es \<Longrightarrow>
     fmlookup (fold (\<lambda>e. fmupd (h (fst e)) (snd e)) es km) k = fmlookup km k"
  by (induction es arbitrary: km) auto

lemma kmems_entry:
  assumes "distinct (map fst es)" and "inj_on h (fst ` set es)" and "(name, member) \<in> set es"
  shows "fmlookup (fold (\<lambda>e. fmupd (h (fst e)) (snd e)) es km) (h name) = Some member"
  using assms
proof (induction es arbitrary: km)
  case Nil
  then show ?case by simp
next
  case (Cons e es)
  show ?case
  proof (cases "e = (name, member)")
    case True
    have "h name \<notin> (\<lambda>e. h (fst e)) ` set es"
    proof
      assume "h name \<in> (\<lambda>e. h (fst e)) ` set es"
      then obtain e' where e': "e' \<in> set es" "h (fst e') = h name" by auto
      have "fst e' \<in> fst ` set (e # es)" "name \<in> fst ` set (e # es)"
        using e'(1) True by force+
      from inj_onD [OF Cons.prems(2) e'(2) this] have "fst e' = name" .
      with e' Cons.prems(1) True show False by force
    qed
    from kmems_other [OF this] True show ?thesis by simp
  next
    case False
    with Cons.prems have "(name, member) \<in> set es" "distinct (map fst es)"
      "inj_on h (fst ` set es)" by (auto simp: inj_on_def)
    from Cons.IH [OF this(2,3,1)] show ?thesis by simp
  qed
qed

lemma findOwner_found:
  assumes "k \<in> set (drop i ks)"
  shows "findOwner ks k i < length ks \<and> ks ! findOwner ks k i = k"
  using assms
proof (induction ks k i rule: findOwner.induct)
  case (1 keys ownerKey idx)
  from "1.prems" have lt: "idx < length keys" by (cases "idx < length keys") auto
  show ?case
  proof (cases "keys ! idx = ownerKey")
    case True
    with lt show ?thesis by (subst (1 2) findOwner.simps) simp
  next
    case False
    from lt have "drop idx keys = keys ! idx # drop (idx + 1) keys"
      by (simp add: Cons_nth_drop_Suc)
    with "1.prems" False have "ownerKey \<in> set (drop (idx + 1) keys)" by auto
    from "1.IH" [OF lt False this] lt False show ?thesis
      by (subst (1 2) findOwner.simps) simp
  qed
qed

lemma backupsLoop_run:
  assumes "idx < length ks" and "length nm = length ks"
    and "\<forall>i<length ks. fmlookup km (ks ! i) = Some (nm ! i)"
  shows "backupsLoop ks km n idx res =
           Inr (res @ map (\<lambda>j. nm ! ((idx + 1 + j) mod length ks))
                          [0..<nat (n - int (length res))], None)"
  using assms(1)
proof (induction "nat (n - int (length res))" arbitrary: idx res)
  case 0
  then have "\<not> int (length res) < n" by simp
  with 0 show ?case by (subst backupsLoop.simps) simp
next
  case (Suc k)
  let ?N = "length ks"
  let ?idx' = "if idx + 1 \<ge> ?N then 0 else idx + 1"
  from Suc.hyps(2) have lt: "int (length res) < n" by simp
  have idx': "?idx' = (idx + 1) mod ?N" "?idx' < ?N"
  proof -
    show "?idx' = (idx + 1) mod ?N"
    proof (cases "idx + 1 \<ge> ?N")
      case True
      with Suc.prems have "idx + 1 = ?N" by simp
      then show ?thesis by simp
    next
      case False
      then show ?thesis by simp
    qed
    from Suc.prems show "?idx' < ?N" by auto
  qed
  with assms(3) have look: "fmlookup km (ks ! ?idx') = Some (nm ! ?idx')" by blast
  from Suc.hyps(2) have k: "k = nat (n - int (length (res @ [nm ! ?idx'])))" by simp
  from Suc.hyps(2) have k': "nat (n - int (length res)) = Suc k" by simp
  have step: "backupsLoop ks km n idx res = backupsLoop ks km n ?idx' (res @ [nm ! ?idx'])"
    using lt idx'(2) look by (subst backupsLoop.simps) (simp add: Let_def)
  have shift: "(?idx' + 1 + j) mod ?N = (idx + 1 + Suc j) mod ?N" for j
    unfolding idx'(1) by (metis add.assoc add.commute mod_add_left_eq plus_1_eq_Suc)
  have "map (\<lambda>j. nm ! ((idx + 1 + j) mod ?N)) [0..<Suc k]
          = nm ! ((idx + 1) mod ?N) # map (\<lambda>j. nm ! ((idx + 1 + Suc j) mod ?N)) [0..<k]"
    by (simp add: upt_conv_Cons map_Suc_upt [symmetric] del: upt_Suc)
  moreover have "backupsLoop ks km n ?idx' (res @ [nm ! ?idx']) =
      Inr ((res @ [nm ! ?idx']) @ map (\<lambda>j. nm ! ((?idx' + 1 + j) mod ?N)) [0..<k], None)"
    using Suc.hyps(1) [OF k idx'(2)] unfolding k [symmetric] .
  ultimately show ?case
    unfolding step k' shift by (simp only: idx'(1) append_assoc append_Cons append_Nil)
qed

lemma mod_add_cancel_small:
  fixes a j j' N :: nat
  assumes "j < N" and "j' < N" and "(a + j) mod N = (a + j') mod N"
  shows "j = j'"
proof -
  have aux: "x = y" if "x \<le> y" "y < N" "(a + x) mod N = (a + y) mod N" for x y
  proof -
    from that(1) have "a + x \<le> a + y" by simp
    from mod_eq_dvd_iff_nat [OF this, of N] that(3) have "N dvd (a + y) - (a + x)" by simp
    then have "N dvd y - x" by simp
    moreover from that(2) have "y - x < N" by simp
    ultimately have "y - x = 0" by (meson dvd_imp_le not_less zero_less_iff_neq_zero)
    with that(1) show ?thesis by simp
  qed
  show ?thesis
  proof (cases "j \<le> j'")
    case True
    from aux [OF True assms(2,3)] show ?thesis .
  next
    case False
    then have "j' \<le> j" by simp
    from aux [OF this assms(1) assms(3) [symmetric]] show ?thesis by simp
  qed
qed

lemma GetPartitionBackups_enough:
  assumes reg: "\<forall>n m. fmlookup (members c) n = Some m \<longrightarrow> m = n"
    and own: "GetPartitionOwner c partID = Some owner"
    and mem: "owner \<in> fmdom' (members c)"
    and inj: "inj_on (hasher c) (fmdom' (members c))"
    and ord: "rangeOrder c entries"
    and n0: "0 \<le> n" and n1: "n \<le> int (fcard (fmdom (members c))) - 1"
  shows "\<exists>res. GetPartitionBackups c entries partID n = Inr (res, None)
           \<and> int (length res) = n \<and> distinct res \<and> owner \<notin> set res
           \<and> set res \<subseteq> fmdom' (members c)"
proof -
  let ?h = "hasher c" and ?M = "fmdom' (members c)"
  let ?keys = "map (\<lambda>e. ?h (fst e)) entries"
  let ?kmems = "fold (\<lambda>e. fmupd (?h (fst e)) (snd e)) entries fmempty"
  define srt where "srt = sort ?keys"
  let ?sorted = srt
  define N where "N = length ?sorted"
  define nm where "nm = map (the_inv_into ?M ?h) ?sorted"
  define i0 where "i0 = findOwner ?sorted (?h owner) 0"
  from ord have dist: "distinct (map fst entries)"
    and fs: "fset_of_list (map fst entries) = fmdom (members c)"
    and each: "\<forall>e\<in>set entries. fmlookup (members c) (fst e) = Some (snd e)"
    by (simp_all add: rangeOrder_def list_all_iff)
  have "fset (fset_of_list (map fst entries)) = fst ` set entries"
    by (simp add: fset_of_list.rep_eq)
  with fs have names: "fst ` set entries = ?M" by (simp add: fmdom'_alt_def)
  have entry: "(name, name) \<in> set entries" if "name \<in> ?M" for name
  proof -
    from that have "name \<in> fst ` set entries" by (simp only: names)
    then obtain e where e: "e \<in> set entries" "fst e = name" by (metis imageE)
    with each have "fmlookup (members c) name = Some (snd e)" by auto
    with reg have "snd e = name" by blast
    with e show ?thesis by (metis prod.collapse)
  qed
  have inj': "inj_on ?h (fst ` set entries)" using inj names by simp
  have dk: "distinct ?keys"
  proof -
    from dist have de: "distinct entries" and "inj_on fst (set entries)"
      by (simp_all add: distinct_map)
    from this(2) inj' have "inj_on (?h \<circ> fst) (set entries)" by (rule comp_inj_on)
    with de have "distinct (map (?h \<circ> fst) entries)" by (simp add: distinct_map)
    then show ?thesis by (simp add: comp_def)
  qed
  have sk: "set ?sorted = ?h ` ?M"
  proof -
    have "set ?sorted = ?h ` (fst ` set entries)" by (simp add: srt_def image_image)
    then show ?thesis by (simp only: names)
  qed
  have ds: "distinct ?sorted" using dk by (simp add: srt_def)
  have cardM: "card ?M = N"
  proof -
    from distinct_card [OF ds] have "card (?h ` ?M) = N" unfolding sk N_def .
    with card_image [OF inj] show ?thesis by simp
  qed
  have fc: "fcard (fmdom (members c)) = N"
    using cardM by (simp add: fmdom'_alt_def fcard.rep_eq)
  have at: "the_inv_into ?M ?h (?sorted ! i) \<in> ?M
            \<and> ?h (the_inv_into ?M ?h (?sorted ! i)) = ?sorted ! i" if "i < N" for i
  proof -
    from that have "?sorted ! i \<in> ?h ` ?M" unfolding sk [symmetric] N_def by (rule nth_mem)
    with inj show ?thesis by (simp add: the_inv_into_into f_the_inv_into_f)
  qed
  have look: "\<forall>i<length ?sorted. fmlookup ?kmems (?sorted ! i) = Some (nm ! i)"
  proof (intro allI impI)
    fix i assume i: "i < length ?sorted"
    then have iN: "i < N" by (simp add: N_def)
    let ?name = "the_inv_into ?M ?h (?sorted ! i)"
    from at [OF iN] have "?name \<in> ?M" and hn: "?h ?name = ?sorted ! i" by simp_all
    from entry [OF this(1)] have "(?name, ?name) \<in> set entries" .
    from kmems_entry [OF dist inj' this, of fmempty] hn i
    show "fmlookup ?kmems (?sorted ! i) = Some (nm ! i)" by (simp add: nm_def)
  qed
  have lnm: "length nm = length ?sorted" by (simp add: nm_def)
  have dnm: "distinct nm"
    unfolding nm_def
  proof (subst distinct_map, intro conjI)
    show "distinct ?sorted" by (rule ds)
    show "inj_on (the_inv_into ?M ?h) (set ?sorted)"
      unfolding sk using inj by (rule inj_on_the_inv_into)
  qed
  have nmM: "nm ! i \<in> ?M" if "i < N" for i
    using at [OF that] that by (simp add: nm_def N_def)
  have "?h owner \<in> set (drop 0 ?sorted)" using mem sk by simp
  from findOwner_found [OF this] have i0: "i0 < N" and si0: "?sorted ! i0 = ?h owner"
    by (simp_all add: i0_def N_def)
  have nmi0: "nm ! i0 = owner"
    using i0 si0 inj mem by (simp add: nm_def N_def the_inv_into_f_f)
  from n0 n1 fc have nN: "nat n < N" by simp
  let ?res = "map (\<lambda>j. nm ! ((i0 + 1 + j) mod N)) [0..<nat n]"
  have ck: "collectKeys c (GetPartitionOwner c partID) entries (0, [], fmempty)
              = Inr (?h owner, ?keys, ?kmems)"
    using mem names by (simp add: own collectKeys_Some)
  from i0 have "i0 < length ?sorted" by (simp add: N_def)
  from backupsLoop_run [OF this lnm look, of n "[]"]
  have "backupsLoop ?sorted ?kmems n i0 [] = Inr (?res, None)"
    by (simp add: N_def)
  with n1 ck have run: "GetPartitionBackups c entries partID n = Inr (?res, None)"
    by (simp add: GetPartitionBackups_def Let_def i0_def srt_def)
  have len: "int (length ?res) = n" using n0 by simp
  have idx: "(i0 + 1 + j) mod N < N" for j using i0 by simp
  have dres: "distinct ?res"
  proof (subst distinct_map, intro conjI)
    show "distinct [0..<nat n]" by simp
    show "inj_on (\<lambda>j. nm ! ((i0 + 1 + j) mod N)) (set [0..<nat n])"
    proof (rule inj_onI)
      fix j j' assume j: "j \<in> set [0..<nat n]" "j' \<in> set [0..<nat n]"
        and e: "nm ! ((i0 + 1 + j) mod N) = nm ! ((i0 + 1 + j') mod N)"
      from j nN have jl: "j < N" "j' < N" by simp_all
      from e dnm idx lnm have "(i0 + 1 + j) mod N = (i0 + 1 + j') mod N"
        by (simp add: nth_eq_iff_index_eq N_def)
      from mod_add_cancel_small [OF jl this] show "j = j'" .
    qed
  qed
  have nown: "owner \<notin> set ?res"
  proof
    assume "owner \<in> set ?res"
    then obtain j where j: "j < nat n" and e: "nm ! ((i0 + 1 + j) mod N) = owner" by auto
    from e nmi0 have "nm ! ((i0 + 1 + j) mod N) = nm ! i0" by simp
    moreover from idx [of j] i0 lnm have "(i0 + 1 + j) mod N < length nm" "i0 < length nm"
      by (simp_all add: N_def)
    ultimately have "(i0 + 1 + j) mod N = i0"
      by (simp only: nth_eq_iff_index_eq [OF dnm])
    with i0 have eq: "(i0 + (1 + j)) mod N = (i0 + 0) mod N" by (simp add: add.assoc)
    from j nN have lt: "1 + j < N" "0 < N" by simp_all
    from mod_add_cancel_small [OF lt eq] show False by simp
  qed
  have sub: "set ?res \<subseteq> ?M" using nmM idx by auto
  from run len dres nown sub show ?thesis by blast
qed

text \<open>
  Claim C6. For an instance, a partition id that has an owner in the table, a hasher
  that is injective on the registered member names, and a backup count \<open>n \<ge> 0\<close>:
  if \<open>n \<le> memberCount - 1\<close>, \<open>GetPartitionBackups\<close> returns, without an error, exactly
  \<open>n\<close> pairwise distinct registered members, none of them the owner, whatever the order
  in which Go visits the registry; if \<open>n > memberCount - 1\<close> it returns the
  insufficient-member-count error and no member, for every partition id and order:
  the test comes first, before the owner is looked up and before any walk.
\<close>

theorem GetPartitionBackups_distinct_members_without_owner:
  assumes "runCalls ms cfg ops = Inr c"
    and "GetPartitionOwner c partID = Some owner"
    and "inj_on (hasher c) (fmdom' (members c))"
    and "rangeOrder c entries"
    and "0 \<le> n"
  shows "(n \<le> int (fcard (fmdom (members c))) - 1 \<longrightarrow>
            (\<exists>res. GetPartitionBackups c entries partID n = Inr (res, None)
               \<and> int (length res) = n \<and> distinct res \<and> owner \<notin> set res
               \<and> set res \<subseteq> fmdom' (members c)))
         \<and> (n > int (fcard (fmdom (members c))) - 1 \<longrightarrow>
            (\<forall>entries' partID'. GetPartitionBackups c entries' partID' n
               = Inr ([], Some ErrInsufficientMemberCount)))"
proof -
  have A: "\<exists>res. GetPartitionBackups c entries partID n = Inr (res, None)
               \<and> int (length res) = n \<and> distinct res \<and> owner \<notin> set res
               \<and> set res \<subseteq> fmdom' (members c)"
    if n1: "n \<le> int (fcard (fmdom (members c))) - 1"
  proof -
    from n1 assms(5) have "0 < int (fcard (fmdom (members c)))" by linarith
    have ne: "fmdom (members c) \<noteq> {||}"
    proof
      assume "fmdom (members c) = {||}"
      then have "int (fcard (fmdom (members c))) = 0" by simp
      with \<open>0 < int (fcard (fmdom (members c)))\<close> show False by simp
    qed
    from runCalls_Inr [OF assms(1)] have "instInv c" by simp
    then have reg: "registryInv c" by (rule instInv_registry)
    from assms(1) ne obtain avg where
      t: "tableInv (ring c) avg (int_of_uint64 ` {..<partitionCount c}) (partitions c, loads c)"
      by (rule instance_table)
    then have "\<forall>k m. fmlookup (partitions c) k = Some m
        \<longrightarrow> (\<exists>h. fmlookup (ring c) h = Some m)" by (simp add: tableInv_def)
    with assms(2) obtain h where "fmlookup (ring c) h = Some owner"
      unfolding GetPartitionOwner_def by blast
    from registryInv_ring [OF reg this] have mem: "owner \<in> fmdom' (members c)"
      by (simp add: fmdom'I)
    from reg have nm: "\<forall>n m. fmlookup (members c) n = Some m \<longrightarrow> m = n"
      unfolding registryInv_def by blast
    from GetPartitionBackups_enough [OF nm assms(2) mem assms(3,4,5) n1] show ?thesis .
  qed
  have B: "GetPartitionBackups c entries' partID' n = Inr ([], Some ErrInsufficientMemberCount)"
    if "n > int (fcard (fmdom (members c))) - 1" for entries' partID'
    using that by (simp add: GetPartitionBackups_def)
  from A B show ?thesis by blast
qed

theorem GetPartitionBackups_distinct_members_without_owner_witness:
  "runCalls (Some [''A'', ''B'']) (demoConfig 3 2 (5/4)) [AddMember ''C'']
     = Inr (projr (runCalls (Some [''A'', ''B'']) (demoConfig 3 2 (5/4)) [AddMember ''C'']))
   \<and> GetPartitionOwner
         (projr (runCalls (Some [''A'', ''B'']) (demoConfig 3 2 (5/4)) [AddMember ''C''])) 0
       = Some ''A''
   \<and> inj_on (hasher (projr (runCalls (Some [''A'', ''B'']) (demoConfig 3 2 (5/4)) [AddMember ''C''])))
        (fmdom' (members (projr (runCalls (Some [''A'', ''B'']) (demoConfig 3 2 (5/4))
                                   [AddMember ''C'']))))
   \<and> rangeOrder (projr (runCalls (Some [''A'', ''B'']) (demoConfig 3 2 (5/4)) [AddMember ''C'']))
        [(''C'', ''C''), (''A'', ''A''), (''B'', ''B'')]
   \<and> GetPartitionBackups
         (projr (runCalls (Some [''A'', ''B'']) (demoConfig 3 2 (5/4)) [AddMember ''C'']))
         [(''C'', ''C''), (''A'', ''A''), (''B'', ''B'')] 0 2
       = Inr ([''B'', ''C''], None)
   \<and> (\<exists>res. GetPartitionBackups
         (projr (runCalls (Some [''A'', ''B'']) (demoConfig 3 2 (5/4)) [AddMember ''C'']))
         [(''C'', ''C''), (''A'', ''A''), (''B'', ''B'')] 0 2 = Inr (res, None)
         \<and> int (length res) = 2 \<and> distinct res \<and> ''A'' \<notin> set res)
   \<and> GetPartitionBackups
         (projr (runCalls (Some [''A'', ''B'']) (demoConfig 3 2 (5/4)) [AddMember ''C'']))
         [(''C'', ''C''), (''A'', ''A''), (''B'', ''B'')] 0 3
       = Inr ([], Some ErrInsufficientMemberCount)"
proof -
  let ?r = "runCalls (Some [''A'', ''B'']) (demoConfig 3 2 (5/4)) [AddMember ''C'']"
  let ?c = "projr ?r"
  let ?es = "[(''C'', ''C''), (''A'', ''A''), (''B'', ''B'')]"
  have "case ?r of Inl e \<Rightarrow> False | Inr c \<Rightarrow> True" by code_simp
  then have h1: "?r = Inr ?c" by (rule runCalls_projr)
  have h2: "GetPartitionOwner ?c 0 = Some ''A''" by code_simp
  have d: "fmdom (members ?c) = {|''A'', ''B'', ''C''|}" by code_simp
  from runCalls_Inr [OF h1] have "hasher ?c = demoHasher" by (simp add: demoConfig_def)
  moreover from d have "fmdom' (members ?c) = {''A'', ''B'', ''C''}"
    by (simp add: fmdom'_alt_def)
  moreover have "inj_on demoHasher {''A'', ''B'', ''C''}" by (simp add: demoHasher_def)
  ultimately have h3: "inj_on (hasher ?c) (fmdom' (members ?c))" by simp
  have h4: "rangeOrder ?c ?es" by code_simp
  have fc: "fcard (fmdom (members ?c)) = 3" by code_simp
  have n2: "(2 :: int) \<le> int (fcard (fmdom (members ?c))) - 1" unfolding fc by simp
  have n3: "(3 :: int) > int (fcard (fmdom (members ?c))) - 1" unfolding fc by simp
  have v: "GetPartitionBackups ?c ?es 0 2 = Inr ([''B'', ''C''], None)" by code_simp
  from GetPartitionBackups_distinct_members_without_owner [OF h1 h2 h3 h4, of 2] n2
  have g1: "\<exists>res. GetPartitionBackups ?c ?es 0 2 = Inr (res, None)
         \<and> int (length res) = 2 \<and> distinct res \<and> ''A'' \<notin> set res" by auto
  from GetPartitionBackups_distinct_members_without_owner [OF h1 h2 h3 h4, of 3] n3
  have g2: "GetPartitionBackups ?c ?es 0 3 = Inr ([], Some ErrInsufficientMemberCount)" by auto
  from h1 h2 h3 h4 v g1 g2 show ?thesis by blast
qed

end
